theory Spec2Isabelle
  imports Complex_Main
begin

section \<open>InSAR correlated-noise covariance: the error-analysis notebooks\<close>

text \<open>
  The development embeds the computation cells of
  \<^verbatim>\<open>10_error_analysis/insar_correlated_noise_covariance.ipynb\<close> and
  \<^verbatim>\<open>10_error_analysis/make_inverse_covariance_matrix.ipynb\<close>.

  Arithmetic convention. The notebooks compute on \<^verbatim>\<open>float64\<close> arrays. Finite values
  are taken as exact real numbers here (no rounding), and the special values are explicit:
  a pixel of an input field is \<open>Some v\<close> or \<open>None\<close>, where \<open>None\<close> is \<^verbatim>\<open>nan\<close>; the
  results of the two divisions of the notebook that can have a zero divisor, and the
  values computed from them, are values of \<open>npfloat\<close>, with \<^verbatim>\<open>nan\<close> and the two
  infinities as constructors. A two-dimensional array is the list of its rows, so
  \<^verbatim>\<open>ravel\<close> is \<open>concat\<close>.

  The convention leaves out the rounding error that a \<^verbatim>\<open>float64\<close> result carries.
  Where the behaviour of the code turns on whether a computed value is exactly zero and
  exact arithmetic cannot tell what rounding leaves of it, no conclusion is drawn from the
  exact value: what \<^verbatim>\<open>np.linalg.inv\<close> does with a singular matrix is a parameter of the
  embedding (see \<open>linalg_inv\<close>), and nothing is concluded from a plane fit about which
  entries of its detrended field are exactly zero.
\<close>

subsection \<open>Arrays\<close>

type_synonym pixel = "real option"
type_synonym field = "pixel list list"

datatype npfloat = Fin real | PInf | NInf | NaN

datatype error =
    LinAlgError             \<comment> \<open>\<^verbatim>\<open>numpy.linalg.LinAlgError\<close>: singular matrix\<close>
  | ValueError              \<comment> \<open>\<^verbatim>\<open>max()\<close> of an empty sequence, a negative array dimension\<close>
  | IndexError              \<comment> \<open>an index out of range, a boolean mask of the wrong shape\<close>
  | NameError               \<comment> \<open>a variable that is not bound\<close>
  | InsufficientDataError   \<comment> \<open>named by the specification; no statement of the notebooks raises it\<close>

definition nrows :: "'a list list \<Rightarrow> nat" where
  "nrows g = length g"

definition ncols :: "'a list list \<Rightarrow> nat" where
  "ncols g = (case g of [] \<Rightarrow> 0 | r # _ \<Rightarrow> length r)"

text \<open>\<^verbatim>\<open>np.shape\<close> is defined on rectangular arrays only.\<close>

definition rect :: "'a list list \<Rightarrow> bool" where
  "rect g = list_all (\<lambda>r. length r = ncols g) g"

definition ravel :: "'a list list \<Rightarrow> 'a list" where
  "ravel g = concat g"

definition isnan :: "pixel \<Rightarrow> bool" where
  "isnan p = (p = None)"

text \<open>\<^verbatim>\<open>v[~np.isnan(v)]\<close>: the entries that are not \<^verbatim>\<open>nan\<close>, in order.\<close>

fun drop_nan :: "pixel list \<Rightarrow> real list" where
  "drop_nan [] = []"
| "drop_nan (None # ps) = drop_nan ps"
| "drop_nan (Some v # ps) = v # drop_nan ps"

text \<open>
  \<^verbatim>\<open>xx,yy=np.meshgrid(np.arange(0,ncols,1),np.arange(0,nrows,1))\<close>: \<open>xx\<close> holds the
  column number of every cell and \<open>yy\<close> its row number.
\<close>

definition meshgrid_xx :: "nat \<Rightarrow> nat \<Rightarrow> real list list" where
  "meshgrid_xx nc nr = replicate nr (map real [0..<nc])"

definition meshgrid_yy :: "nat \<Rightarrow> nat \<Rightarrow> real list list" where
  "meshgrid_yy nc nr = map (\<lambda>r. replicate nc (real r)) [0..<nr]"

text \<open>\<^verbatim>\<open>xx[np.isnan(cropifg)]=np.nan\<close> on the float copy of a grid.\<close>

definition nan_out :: "real list list \<Rightarrow> field \<Rightarrow> field" where
  "nan_out g f = map2 (\<lambda>gr fr. map2 (\<lambda>v p. if isnan p then None else Some v) gr fr) g f"

text \<open>Arithmetic with \<^verbatim>\<open>nan\<close>: an operand that is \<^verbatim>\<open>nan\<close> makes the result \<^verbatim>\<open>nan\<close>.\<close>

fun nan_lift2 :: "(real \<Rightarrow> real \<Rightarrow> real) \<Rightarrow> pixel \<Rightarrow> pixel \<Rightarrow> pixel" where
  "nan_lift2 f (Some a) (Some b) = Some (f a b)"
| "nan_lift2 f _ _ = None"

definition grid_map2 :: "('a \<Rightarrow> 'b \<Rightarrow> 'c) \<Rightarrow> 'a list list \<Rightarrow> 'b list list \<Rightarrow> 'c list list" where
  "grid_map2 f g h = map2 (\<lambda>gr hr. map2 f gr hr) g h"

subsection \<open>Flattening the crop: the best-fitting plane\<close>

definition dot :: "real list \<Rightarrow> real list \<Rightarrow> real" where
  "dot u v = sum_list (map2 (*) u v)"

text \<open>
  \<open>AT\<close> is \<^verbatim>\<open>np.vstack((np.ones_like(xx1d),xx1d,yy1d))\<close>, the transpose of the design
  matrix \<open>A\<close>. Entry \<open>(i, j)\<close> of \<^verbatim>\<open>np.matmul(A.T,A)\<close> is the dot product of rows \<open>i\<close> and
  \<open>j\<close> of \<open>AT\<close>; entry \<open>i\<close> of \<^verbatim>\<open>np.matmul(A.T,d)\<close> is the dot product of row \<open>i\<close> with \<open>d\<close>.
\<close>

definition matmul_AT_A :: "real list list \<Rightarrow> real list list" where
  "matmul_AT_A AT = map (\<lambda>u. map (\<lambda>v. dot u v) AT) AT"

definition matvec :: "real list list \<Rightarrow> real list \<Rightarrow> real list" where
  "matvec M d = map (\<lambda>u. dot u d) M"

definition det3 :: "real \<Rightarrow> real \<Rightarrow> real \<Rightarrow> real \<Rightarrow> real \<Rightarrow> real \<Rightarrow> real \<Rightarrow> real \<Rightarrow> real \<Rightarrow> real" where
  "det3 a b c d e f g h i = a * (e * i - f * h) - b * (d * i - f * g) + c * (d * h - e * g)"

text \<open>
  \<^verbatim>\<open>np.linalg.inv\<close> on the 3 by 3 matrices the notebook passes to it. The routine
  factorises the matrix (LU with partial pivoting, in \<^verbatim>\<open>float64\<close>) and raises
  \<^verbatim>\<open>LinAlgError\<close> only when a pivot of the factorisation is exactly zero.

  \<^item> For a matrix that is not singular the result is the inverse (up to the rounding
    error that the arithmetic convention leaves out).
  \<^item> A column of zeros stays a column of zeros through the elimination whatever the
    rounding (every update of it is \<open>0 - l * 0\<close>), so its pivot is exactly zero and the
    routine raises.
  \<^item> For any other singular matrix the rounding of the factorisation decides: the last
    pivot is exactly zero and the routine raises, or it is a rounding residue and the
    routine returns a matrix (of very large entries) without any exception. Exact
    arithmetic does not determine which; the outcome is the parameter \<open>lu\<close>, with
    \<open>lu M = None\<close> for the exception and \<open>lu M = Some R\<close> for the matrix returned.
\<close>

type_synonym mat3 = "(real \<times> real \<times> real) \<times> (real \<times> real \<times> real) \<times> (real \<times> real \<times> real)"

fun rows_of :: "mat3 \<Rightarrow> real list list" where
  "rows_of ((a, b, c), (d, e, f), (g, h, i)) = [[a, b, c], [d, e, f], [g, h, i]]"

fun linalg_inv :: "(real list list \<Rightarrow> mat3 option) \<Rightarrow> real list list \<Rightarrow> error + real list list" where
  "linalg_inv lu [[a, b, c], [d, e, f], [g, h, i]] =
     (let dt = det3 a b c d e f g h i in
      if dt \<noteq> 0 then
        Inr [[(e * i - f * h) / dt, (c * h - b * i) / dt, (b * f - c * e) / dt],
             [(f * g - d * i) / dt, (a * i - c * g) / dt, (c * d - a * f) / dt],
             [(d * h - e * g) / dt, (b * g - a * h) / dt, (a * e - b * d) / dt]]
      else if (a = 0 \<and> d = 0 \<and> g = 0) \<or> (b = 0 \<and> e = 0 \<and> h = 0) \<or> (c = 0 \<and> f = 0 \<and> i = 0)
        then Inl LinAlgError
      else (case lu [[a, b, c], [d, e, f], [g, h, i]] of
              None \<Rightarrow> Inl LinAlgError
            | Some R \<Rightarrow> Inr (rows_of R)))"
| "linalg_inv lu _ = Inl LinAlgError"

definition design_AT :: "field \<Rightarrow> real list list" where
  "design_AT cropifg =
     (let nr = nrows cropifg; nc = ncols cropifg;
          xx = nan_out (meshgrid_xx nc nr) cropifg;
          yy = nan_out (meshgrid_yy nc nr) cropifg;
          xx1d = drop_nan (ravel xx);
          yy1d = drop_nan (ravel yy)
      in [map (\<lambda>_. 1) xx1d, xx1d, yy1d])"

definition eval_plane :: "real list \<Rightarrow> field \<Rightarrow> field \<Rightarrow> field" where
  "eval_plane planeparams xx yy =
     grid_map2 (\<lambda>x y. nan_lift2 (+) (nan_lift2 (+) (Some (planeparams ! 0))
                                      (nan_lift2 (*) x (Some (planeparams ! 1))))
                                   (nan_lift2 (*) y (Some (planeparams ! 2)))) xx yy"

text \<open>
  The cell "flatten the interferogram crop": the result is \<^verbatim>\<open>planeparams\<close> and
  \<^verbatim>\<open>flatcropifg\<close>, or the exception of \<^verbatim>\<open>np.linalg.inv\<close>. The cell has no other
  failure path: it does not count the valid pixels.
\<close>

definition planefit :: "(real list list \<Rightarrow> mat3 option) \<Rightarrow> field \<Rightarrow> error + (real list \<times> field)" where
  "planefit lu cropifg =
     (let nr = nrows cropifg; nc = ncols cropifg;
          xx = nan_out (meshgrid_xx nc nr) cropifg;
          yy = nan_out (meshgrid_yy nc nr) cropifg;
          cropifg1d = drop_nan (ravel cropifg);
          AT = design_AT cropifg;
          ATA = matmul_AT_A AT;
          ATd = matvec AT cropifg1d
      in case linalg_inv lu ATA of
           Inl e \<Rightarrow> Inl e
         | Inr ATAinv \<Rightarrow>
             (let planeparams = matvec ATAinv ATd;
                  plane = eval_plane planeparams xx yy;
                  flatcropifg = grid_map2 (nan_lift2 (-)) cropifg plane
              in Inr (planeparams, flatcropifg)))"

subsection \<open>Autocorrelation in the Fourier domain\<close>

text \<open>
  \<^verbatim>\<open>flatcropifgzeros[np.isnan(flatcropifg)]=0\<close>, as a function of the contents of the
  array: the array that results holds no \<^verbatim>\<open>nan\<close> and is read as an array of reals.
  (Which variables see the assignment is the subject of the store model below.)
\<close>

definition zero_fill :: "field \<Rightarrow> real list list" where
  "zero_fill f = map (map (\<lambda>p. case p of None \<Rightarrow> 0 | Some v \<Rightarrow> v)) f"

text \<open>
  \<^verbatim>\<open>scipy.fft.fft2\<close> and \<^verbatim>\<open>ifft2\<close> are library routines; they are taken by their
  documented meaning, the two-dimensional discrete Fourier transform and its inverse:
  \<open>F[k,l] = \<Sum>r \<Sum>c z[r,c] exp(-2\<pi>i(kr/M + lc/N))\<close> and
  \<open>a[r,c] = 1/(MN) \<Sum>k \<Sum>l P[k,l] exp(2\<pi>i(kr/M + lc/N))\<close>.
\<close>

definition fft2 :: "real list list \<Rightarrow> complex list list" where
  "fft2 z =
     (let M = nrows z; N = ncols z in
      map (\<lambda>k. map (\<lambda>l. \<Sum>r<M. \<Sum>c<N. complex_of_real (z ! r ! c) *
                 cis (- (2 * pi * (real k * real r / real M + real l * real c / real N))))
               [0..<N]) [0..<M])"

definition ifft2 :: "real list list \<Rightarrow> complex list list" where
  "ifft2 P =
     (let M = nrows P; N = ncols P in
      map (\<lambda>r. map (\<lambda>c. (\<Sum>k<M. \<Sum>l<N. complex_of_real (P ! k ! l) *
                 cis (2 * pi * (real k * real r / real M + real l * real c / real N)))
                 / complex_of_real (real (M * N)))
               [0..<N]) [0..<M])"

text \<open>
  \<^verbatim>\<open>scipy.fftpack.fftshift\<close>: along every axis the second half of the entries,
  from index \<open>(n + 1) div 2\<close> on, is moved in front of the first half.
\<close>

definition fftshift1 :: "'a list \<Rightarrow> 'a list" where
  "fftshift1 xs = (let n = length xs; p2 = (n + 1) div 2 in drop p2 xs @ take p2 xs)"

definition fftshift :: "'a list list \<Rightarrow> 'a list list" where
  "fftshift g = fftshift1 (map fftshift1 g)"

definition count_nonzero :: "real list list \<Rightarrow> nat" where
  "count_nonzero z = length (filter (\<lambda>v. v \<noteq> 0) (ravel z))"

text \<open>
  A float divided by an integer count: division by zero gives \<^verbatim>\<open>nan\<close> for a zero
  numerator and an infinity otherwise (numpy warns and goes on).
\<close>

definition np_div :: "real \<Rightarrow> nat \<Rightarrow> npfloat" where
  "np_div x n =
     (if n \<noteq> 0 then Fin (x / real n)
      else if x = 0 then NaN else if 0 < x then PInf else NInf)"

definition autocorr_grid :: "field \<Rightarrow> npfloat list list" where
  "autocorr_grid flatcropifg =
     (let flatcropifgzeros = zero_fill flatcropifg;
          fft_flatgrid = fft2 flatcropifgzeros;
          pspec = map (map (\<lambda>w. (Re w)\<^sup>2 + (Im w)\<^sup>2)) fft_flatgrid;
          autocorr = ifft2 pspec
      in map (map (\<lambda>v. np_div v (count_nonzero flatcropifgzeros)))
           (fftshift (map (map Re) autocorr)))"

subsection \<open>The variables of the autocorrelation cell\<close>

text \<open>
  A numpy array is an object; a variable holds a reference to it. The state of the
  notebook is an environment from names to object identities and a heap from identities
  to array contents. \<^verbatim>\<open>x = y\<close> binds \<open>x\<close> to the object of \<open>y\<close>;
  \<^verbatim>\<open>x[np.isnan(y)] = v\<close> writes into the object of \<open>x\<close>.
\<close>

record nbstate =
  env :: "string \<rightharpoonup> nat"
  heap :: "nat \<rightharpoonup> field"

definition lookup :: "string \<Rightarrow> nbstate \<Rightarrow> error + field" where
  "lookup x st =
     (case env st x of
        None \<Rightarrow> Inl NameError
      | Some a \<Rightarrow> (case heap st a of None \<Rightarrow> Inl NameError | Some v \<Rightarrow> Inr v))"

definition bind_name :: "string \<Rightarrow> string \<Rightarrow> nbstate \<Rightarrow> error + nbstate" where
  "bind_name x y st =
     (case env st y of
        None \<Rightarrow> Inl NameError
      | Some a \<Rightarrow> Inr (st\<lparr>env := (env st)(x \<mapsto> a)\<rparr>))"

definition set_where_nan :: "string \<Rightarrow> string \<Rightarrow> real \<Rightarrow> nbstate \<Rightarrow> error + nbstate" where
  "set_where_nan x y v st =
     (case lookup y st of
        Inl e \<Rightarrow> Inl e
      | Inr m \<Rightarrow>
          (case env st x of
             None \<Rightarrow> Inl NameError
           | Some a \<Rightarrow>
               (case heap st a of
                  None \<Rightarrow> Inl NameError
                | Some t \<Rightarrow>
                    if map length t \<noteq> map length m then Inl IndexError
                    else Inr (st\<lparr>heap := (heap st)(a \<mapsto>
                                grid_map2 (\<lambda>p q. if isnan q then Some v else p) t m)\<rparr>))))"

text \<open>
  The first two statements of the cell:
  \<^verbatim>\<open>flatcropifgzeros=flatcropifg\<close> and
  \<^verbatim>\<open>flatcropifgzeros[np.isnan(flatcropifg)]=0\<close>.
\<close>

definition zero_fill_stmts :: "nbstate \<Rightarrow> error + nbstate" where
  "zero_fill_stmts st =
     (case bind_name ''flatcropifgzeros'' ''flatcropifg'' st of
        Inl e \<Rightarrow> Inl e
      | Inr st' \<Rightarrow> set_where_nan ''flatcropifgzeros'' ''flatcropifg'' 0 st')"

text \<open>The contents of a variable after the two statements.\<close>

definition after_zero_fill :: "nbstate \<Rightarrow> string \<Rightarrow> error + field" where
  "after_zero_fill st x =
     (case zero_fill_stmts st of Inl e \<Rightarrow> Inl e | Inr st' \<Rightarrow> lookup x st')"

subsection \<open>Distances from the centre and the cut of the two vectors\<close>

definition cent_of :: "nat \<Rightarrow> real" where
  "cent_of n = of_int \<lfloor>real n / 2\<rfloor> + 1"

definition radial_dist :: "nat \<Rightarrow> nat \<Rightarrow> real \<Rightarrow> real list list" where
  "radial_dist nr nc pixsize =
     (let xcent = cent_of nc; ycent = cent_of nr;
          xx = meshgrid_xx nc nr; yy = meshgrid_yy nc nr
      in grid_map2 (\<lambda>x y. sqrt ((x - xcent)\<^sup>2 + (y - ycent)\<^sup>2) * pixsize) xx yy)"

text \<open>\<^verbatim>\<open>rdlen=int(nrows+np.ceil(len(rd)/2))\<close>\<close>

definition rdlen_of :: "nat \<Rightarrow> nat \<Rightarrow> nat" where
  "rdlen_of nr len = nat (int nr + \<lceil>real len / 2\<rceil>)"

text \<open>
  The cells 4 and 5 in sequence, from the crop to the two cut vectors \<^verbatim>\<open>rd\<close> and
  \<^verbatim>\<open>acg\<close>. \<^verbatim>\<open>nrows\<close> and \<^verbatim>\<open>ncols\<close> are the shape of the crop, set in cell 4.
\<close>

definition covariance_samples ::
  "(real list list \<Rightarrow> mat3 option) \<Rightarrow> real \<Rightarrow> field \<Rightarrow> error + (real list \<times> npfloat list)" where
  "covariance_samples lu pixsize cropifg =
     (case planefit lu cropifg of
        Inl e \<Rightarrow> Inl e
      | Inr (planeparams, flatcropifg) \<Rightarrow>
          (let nr = nrows cropifg; nc = ncols cropifg;
               rd = ravel (radial_dist nr nc pixsize);
               acg = ravel (autocorr_grid flatcropifg);
               rdlen = rdlen_of nr (length rd)
           in Inr (take rdlen rd, take rdlen acg)))"

subsection \<open>Radial average\<close>

fun np_add :: "npfloat \<Rightarrow> npfloat \<Rightarrow> npfloat" where
  "np_add (Fin a) (Fin b) = Fin (a + b)"
| "np_add NaN _ = NaN"
| "np_add _ NaN = NaN"
| "np_add PInf NInf = NaN"
| "np_add NInf PInf = NaN"
| "np_add PInf _ = PInf"
| "np_add _ PInf = PInf"
| "np_add NInf _ = NInf"
| "np_add _ NInf = NInf"

definition np_sum :: "npfloat list \<Rightarrow> npfloat" where
  "np_sum xs = foldl np_add (Fin 0) xs"

fun np_over_count :: "npfloat \<Rightarrow> nat \<Rightarrow> npfloat" where
  "np_over_count (Fin s) n = Fin (s / real n)"
| "np_over_count v n = v"

text \<open>\<^verbatim>\<open>np.mean\<close>: the mean of an empty selection is \<^verbatim>\<open>nan\<close> (with a warning).\<close>

definition np_mean :: "npfloat list \<Rightarrow> npfloat" where
  "np_mean xs = (if xs = [] then NaN else np_over_count (np_sum xs) (length xs))"

text \<open>The builtin \<^verbatim>\<open>max\<close> raises \<^verbatim>\<open>ValueError\<close> on an empty array.\<close>

fun maximum :: "int list \<Rightarrow> error + int" where
  "maximum [] = Inl ValueError"
| "maximum (x # xs) = Inr (fold max xs x)"

text \<open>
  \<^verbatim>\<open>rdbin=np.int32(np.ceil(rdtrunc/w))\<close>. The bin numbers are integers; they are
  below the number of pixels of a side of the grid, far from the range of \<^verbatim>\<open>int32\<close>.
\<close>

definition rdbin_of :: "real \<Rightarrow> real list \<Rightarrow> int list" where
  "rdbin_of w rdtrunc = map (\<lambda>r. \<lceil>r / w\<rceil>) rdtrunc"

definition bin_cell ::
  "real \<Rightarrow> real \<Rightarrow> real \<Rightarrow> real list \<Rightarrow> npfloat list \<Rightarrow> error + (real \<times> npfloat) list" where
  "bin_cell pixsize xcent ycent rd acg =
     (let w = pixsize * 2;
          maxdist = (if xcent < ycent then xcent * pixsize else ycent * pixsize)
      in if length rd \<noteq> length acg then Inl IndexError
         else
           (let rdtrunc = map fst (filter (\<lambda>(r, a). r < maxdist) (zip rd acg));
                acgtrunc = map snd (filter (\<lambda>(r, a). r < maxdist) (zip rd acg));
                rdbin = rdbin_of w rdtrunc
            in case maximum rdbin of
                 Inl e \<Rightarrow> Inl e
               | Inr mx \<Rightarrow>
                   if mx < 0 then Inl ValueError
                   else Inr (map (\<lambda>b. (real_of_int b * w,
                                 np_mean (map snd (filter (\<lambda>(k, a). k = b + 1) (zip rdbin acgtrunc)))))
                              [0..mx - 1])))"

subsection \<open>Penalty functions of the two fits\<close>

text \<open>
  The profile handed to the penalty functions is \<^verbatim>\<open>cvdav\<close> as the binning cell returns
  it: a list of rows (distance, covariance), where a covariance may be \<^verbatim>\<open>nan\<close> or
  infinite. The parameters are finite numbers. Subtraction, the product of a value of
  the profile with a finite factor, and the square, on such values:
\<close>

fun np_neg :: "npfloat \<Rightarrow> npfloat" where
  "np_neg (Fin a) = Fin (- a)"
| "np_neg PInf = NInf"
| "np_neg NInf = PInf"
| "np_neg NaN = NaN"

definition np_sub :: "npfloat \<Rightarrow> npfloat \<Rightarrow> npfloat" where
  "np_sub x y = np_add x (np_neg y)"

fun np_scale :: "npfloat \<Rightarrow> real \<Rightarrow> npfloat" where
  "np_scale (Fin a) e = Fin (a * e)"
| "np_scale NaN e = NaN"
| "np_scale PInf e = (if e = 0 then NaN else if 0 < e then PInf else NInf)"
| "np_scale NInf e = (if e = 0 then NaN else if 0 < e then NInf else PInf)"

fun np_square :: "npfloat \<Rightarrow> npfloat" where
  "np_square (Fin a) = Fin (a * a)"
| "np_square NaN = NaN"
| "np_square PInf = PInf"
| "np_square NInf = PInf"

fun np_sqrt :: "npfloat \<Rightarrow> npfloat" where
  "np_sqrt (Fin s) = (if s < 0 then NaN else Fin (sqrt s))"
| "np_sqrt PInf = PInf"
| "np_sqrt NInf = NaN"
| "np_sqrt NaN = NaN"

text \<open>
  \<^verbatim>\<open>np.linalg.norm(eff,2)\<close> of a vector: the square root of the dot product of the
  vector with itself.
\<close>

definition norm2 :: "npfloat list \<Rightarrow> npfloat" where
  "norm2 v = np_sqrt (np_sum (map np_square v))"

definition pendiffexp :: "real list \<Rightarrow> (real \<times> npfloat) list \<Rightarrow> error + npfloat" where
  "pendiffexp params cvdav =
     (case cvdav of
        [] \<Rightarrow> Inl IndexError
      | (r0, a) # _ \<Rightarrow>
          (case params of
             [] \<Rightarrow> Inl IndexError
           | b # _ \<Rightarrow>
               Inr (norm2 (map (\<lambda>(r, cv). np_sub cv (np_scale a (exp (- b * r)))) cvdav))))"

definition pendiffexpcos :: "real list \<Rightarrow> (real \<times> npfloat) list \<Rightarrow> error + npfloat" where
  "pendiffexpcos params cvdav =
     (case cvdav of
        [] \<Rightarrow> Inl IndexError
      | (r0, a) # _ \<Rightarrow>
          (case params of
             b # c # _ \<Rightarrow>
               Inr (norm2 (map (\<lambda>(r, cv). np_sub cv
                      (np_scale (np_scale a (exp (- b * r))) (cos (c * r)))) cvdav))
           | _ \<Rightarrow> Inl IndexError))"

text \<open>
  The fitted curves \<^verbatim>\<open>exp_graph\<close> and \<^verbatim>\<open>expcos_graph\<close> at a distance \<open>r\<close>, for
  parameters \<open>b\<close> and \<open>c\<close>. The notebook takes the parameters from the result of
  \<^verbatim>\<open>scipy.optimize.minimize\<close>, a numerical search of the scipy library which is handed
  the penalty function, the starting value and the profile; the search is not part of
  the notebook and has no counterpart here.
\<close>

definition exp_graph :: "(real \<times> npfloat) list \<Rightarrow> real \<Rightarrow> real \<Rightarrow> error + npfloat" where
  "exp_graph cvdav b r =
     (case cvdav of
        [] \<Rightarrow> Inl IndexError
      | (r0, a) # _ \<Rightarrow> Inr (np_scale a (exp (- b * r))))"

definition expcos_graph :: "(real \<times> npfloat) list \<Rightarrow> real \<Rightarrow> real \<Rightarrow> real \<Rightarrow> error + npfloat" where
  "expcos_graph cvdav b c r =
     (case cvdav of
        [] \<Rightarrow> Inl IndexError
      | (r0, a) # _ \<Rightarrow> Inr (np_scale (np_scale a (exp (- b * r))) (cos (c * r))))"

subsection \<open>The variance-covariance matrix of a point set\<close>

text \<open>
  \<^verbatim>\<open>xx1, xx2 = np.meshgrid(x,x)\<close>: \<open>xx1[i][j] = x[j]\<close> and \<open>xx2[i][j] = x[i]\<close>.
\<close>

definition meshgrid1 :: "real list \<Rightarrow> real list list" where
  "meshgrid1 x = replicate (length x) x"

definition meshgrid2 :: "real list \<Rightarrow> real list list" where
  "meshgrid2 x = map (\<lambda>v. replicate (length x) v) x"

definition rgrid :: "real list \<Rightarrow> real list \<Rightarrow> real list list" where
  "rgrid x y =
     grid_map2 (\<lambda>dx dy. sqrt (dx\<^sup>2 + dy\<^sup>2))
       (grid_map2 (-) (meshgrid1 x) (meshgrid2 x))
       (grid_map2 (-) (meshgrid1 y) (meshgrid2 y))"

definition covariance_E :: "real \<Rightarrow> real \<Rightarrow> real \<Rightarrow> real list \<Rightarrow> real list \<Rightarrow> real list list" where
  "covariance_E maxvar alpha beta x y =
     map (map (\<lambda>r. maxvar * exp (- alpha * r) * cos (beta * r))) (rgrid x y)"

section \<open>Reference notions\<close>

text \<open>
  The notions in which the properties below are stated: the valid pixels of a field with
  their row and column numbers, the normal equations of a design matrix given by its
  rows, the plane subtracted pixel by pixel, and a circular shift given by its index map.
\<close>

text \<open>
  One outcome of the inversion of singular matrices, for statements about a concrete
  field: the factorisation meets a zero pivot. The fields of these statements have a
  matrix \<open>A\<^sup>T A\<close> that is not singular or has a column of zeros, where the outcome plays
  no part.
\<close>

definition zero_pivot_met :: "real list list \<Rightarrow> mat3 option" where
  "zero_pivot_met M = None"

record vpixel =
  prow :: nat
  pcol :: nat
  pval :: real

fun row_valid :: "nat \<Rightarrow> nat \<Rightarrow> pixel list \<Rightarrow> vpixel list" where
  "row_valid r c [] = []"
| "row_valid r c (None # ps) = row_valid r (Suc c) ps"
| "row_valid r c (Some v # ps) = \<lparr>prow = r, pcol = c, pval = v\<rparr> # row_valid r (Suc c) ps"

fun valid_from :: "nat \<Rightarrow> field \<Rightarrow> vpixel list" where
  "valid_from r [] = []"
| "valid_from r (row # rows) = row_valid r 0 row @ valid_from (Suc r) rows"

definition valid_pixels :: "field \<Rightarrow> vpixel list" where
  "valid_pixels f = valid_from 0 f"

definition num_valid :: "field \<Rightarrow> nat" where
  "num_valid f = length (filter (\<lambda>p. \<not> isnan p) (ravel f))"

text \<open>The design matrix \<open>A\<close> by rows, one row \<open>[1, column, row]\<close> per valid pixel, and \<open>d\<close>.\<close>

definition design_rows :: "field \<Rightarrow> real list list" where
  "design_rows f = map (\<lambda>s. [1, real (pcol s), real (prow s)]) (valid_pixels f)"

definition data_vec :: "field \<Rightarrow> real list" where
  "data_vec f = map pval (valid_pixels f)"

definition column :: "nat \<Rightarrow> real list list \<Rightarrow> real list" where
  "column j A = map (\<lambda>row. row ! j) A"

definition AtA :: "real list list \<Rightarrow> real list list" where
  "AtA A = map (\<lambda>i. map (\<lambda>j. dot (column i A) (column j A)) [0, 1, 2]) [0, 1, 2]"

definition Atd :: "real list list \<Rightarrow> real list \<Rightarrow> real list" where
  "Atd A d = map (\<lambda>i. dot (column i A) d) [0, 1, 2]"

definition normal_equations :: "real list list \<Rightarrow> real list \<Rightarrow> real list \<Rightarrow> bool" where
  "normal_equations A d m = (length m = 3 \<and> matvec (AtA A) m = Atd A d)"

fun mat_det3 :: "real list list \<Rightarrow> real" where
  "mat_det3 [[a, b, c], [d, e, f], [g, h, i]] = det3 a b c d e f g h i"
| "mat_det3 _ = 0"

definition plane_at :: "real list \<Rightarrow> nat \<Rightarrow> nat \<Rightarrow> real" where
  "plane_at m r c = m ! 0 + m ! 1 * real c + m ! 2 * real r"

definition subtract_plane :: "real list \<Rightarrow> field \<Rightarrow> field" where
  "subtract_plane m f =
     map (\<lambda>r. map (\<lambda>c. map_option (\<lambda>v. v - plane_at m r c) (f ! r ! c)) [0..<ncols f])
       [0..<nrows f]"

text \<open>
  The samples of bin \<open>b\<close>, for bins of width twice the pixel size: the autocovariance
  values whose distance is below the cut-off \<open>min(xcent, ycent) * pixsize\<close> and lies in
  the interval from \<open>b\<close> bin widths (excluded) to \<open>b + 1\<close> bin widths (included).
\<close>

definition samples_in_bin ::
  "real \<Rightarrow> real \<Rightarrow> real \<Rightarrow> real list \<Rightarrow> npfloat list \<Rightarrow> nat \<Rightarrow> npfloat list" where
  "samples_in_bin pixsize xcent ycent rd acg b =
     map snd (filter (\<lambda>(r, a). r < min xcent ycent * pixsize
                               \<and> real b * (2 * pixsize) < r \<and> r \<le> (real b + 1) * (2 * pixsize))
                (zip rd acg))"



text \<open>
  The first profile value as claim C10 words it: the mean of the samples at distances
  strictly between 0 and the bin width (below the cut-off).
\<close>

definition strict_first_bin ::
  "real \<Rightarrow> real \<Rightarrow> real \<Rightarrow> real list \<Rightarrow> npfloat list \<Rightarrow> npfloat" where
  "strict_first_bin pixsize xcent ycent rd acg =
     np_mean (map snd (filter (\<lambda>(r, a). r < min xcent ycent * pixsize
                                         \<and> 0 < r \<and> r < 2 * pixsize)
                        (zip rd acg)))"

definition shape :: "nat \<Rightarrow> nat \<Rightarrow> 'a list list \<Rightarrow> bool" where
  "shape M N g = (length g = M \<and> list_all (\<lambda>row. length row = N) g)"

text \<open>
  A circular shift by \<open>k\<close> places: the entry at index \<open>i\<close> moves to index
  \<open>(i + k) mod n\<close>. With \<open>k = n div 2\<close> the entry at index 0 (zero lag) moves to the
  centre index \<open>n div 2\<close>.
\<close>

definition circshift :: "nat \<Rightarrow> 'a list \<Rightarrow> 'a list" where
  "circshift k xs =
     map (\<lambda>j. xs ! ((j + length xs - k mod length xs) mod length xs)) [0..<length xs]"

text \<open>
  The autocovariance as the specification words it: zero-fill, transform, squared
  magnitude, inverse transform, real part, shift of zero lag to the centre, and division
  by the number of valid pixels of the field.
\<close>

definition spec_autocovariance :: "field \<Rightarrow> npfloat list list" where
  "spec_autocovariance f =
     (let z = zero_fill f;
          power = map (map (\<lambda>w. (cmod w)\<^sup>2)) (fft2 z);
          lagged = map (map Re) (ifft2 power);
          centred = circshift (nrows f div 2) (map (circshift (ncols f div 2)) lagged)
      in map (map (\<lambda>v. np_div v (num_valid f))) centred)"

section \<open>Properties\<close>

subsection \<open>The design matrix over the valid pixels\<close>

lemma upt_shift: "[c..<Suc (c + n)] = c # [Suc c..<Suc (c + n)]"
  by (rule upt_conv_Cons) simp

lemma drop_nan_append: "drop_nan (a @ b) = drop_nan a @ drop_nan b"
  by (induction a rule: drop_nan.induct) simp_all

lemma row_vals: "drop_nan row = map pval (row_valid r c row)"
  by (induction r c row rule: row_valid.induct) simp_all

lemma row_xx:
  "drop_nan (map2 (\<lambda>v p. if isnan p then None else Some v) (map real [c..<c + length row]) row)
     = map (\<lambda>s. real (pcol s)) (row_valid r c row)"
  by (induction r c row rule: row_valid.induct)
     (simp_all add: isnan_def upt_shift del: upt_Suc)

lemma row_yy:
  "drop_nan (map2 (\<lambda>v p. if isnan p then None else Some v) (replicate (length row) (real r)) row)
     = map (\<lambda>s. real (prow s)) (row_valid r c row)"
  by (induction r c row rule: row_valid.induct) (simp_all add: isnan_def)

lemma vals_from: "drop_nan (concat f) = map pval (valid_from r f)"
  by (induction f arbitrary: r) (simp_all add: drop_nan_append row_vals)

lemma xx_from:
  "\<forall>row \<in> set f. length row = nc \<Longrightarrow>
   drop_nan (concat (map2 (\<lambda>gr fr. map2 (\<lambda>v p. if isnan p then None else Some v) gr fr)
                      (replicate (length f) (map real [0..<nc])) f))
     = map (\<lambda>s. real (pcol s)) (valid_from r f)"
proof (induction f arbitrary: r)
  case Nil
  then show ?case by simp
next
  case (Cons row f)
  then have "length row = nc" by simp
  with Cons show ?case
    using row_xx [of 0 row r] by (simp add: drop_nan_append)
qed

lemma yy_from:
  "\<forall>row \<in> set f. length row = nc \<Longrightarrow>
   drop_nan (concat (map2 (\<lambda>gr fr. map2 (\<lambda>v p. if isnan p then None else Some v) gr fr)
                      (map (\<lambda>r. replicate nc (real r)) [r..<r + length f]) f))
     = map (\<lambda>s. real (prow s)) (valid_from r f)"
proof (induction f arbitrary: r)
  case Nil
  then show ?case by simp
next
  case (Cons row f)
  then have len: "length row = nc" by simp
  from Cons.prems have "\<forall>row \<in> set f. length row = nc" by simp
  from Cons.IH [OF this, of "Suc r"] len show ?case
    using row_yy [of row r 0] by (simp add: upt_shift drop_nan_append del: upt_Suc)
qed

lemma rect_rows: "rect f \<Longrightarrow> \<forall>row \<in> set f. length row = ncols f"
  by (simp add: rect_def list_all_iff)

lemma rect_row_length: "rect f \<Longrightarrow> r < nrows f \<Longrightarrow> length (f ! r) = ncols f"
  by (simp add: rect_def list_all_length nrows_def)

lemma design_AT_valid:
  assumes "rect f"
  shows "design_AT f = [map (\<lambda>_. 1) (valid_pixels f),
                        map (\<lambda>s. real (pcol s)) (valid_pixels f),
                        map (\<lambda>s. real (prow s)) (valid_pixels f)]"
  using xx_from [OF rect_rows [OF assms], of 0] yy_from [OF rect_rows [OF assms], of 0]
  by (simp add: design_AT_def Let_def nan_out_def ravel_def meshgrid_xx_def meshgrid_yy_def
      nrows_def valid_pixels_def)

lemma d_valid: "drop_nan (ravel f) = map pval (valid_pixels f)"
  by (simp add: ravel_def valid_pixels_def vals_from)

lemma length_drop_nan: "length (drop_nan ps) = length (filter (\<lambda>p. \<not> isnan p) ps)"
  by (induction ps rule: drop_nan.induct) (simp_all add: isnan_def)

lemma num_valid_length: "num_valid f = length (valid_pixels f)"
proof -
  have "length (drop_nan (ravel f)) = length (valid_pixels f)"
    by (simp add: d_valid)
  then show ?thesis
    by (simp add: num_valid_def length_drop_nan)
qed

lemma design_AT_columns:
  assumes "rect f"
  shows "design_AT f = [column 0 (design_rows f), column 1 (design_rows f), column 2 (design_rows f)]"
  by (simp add: design_AT_valid [OF assms] column_def design_rows_def comp_def)

lemma ATA_is_AtA: "rect f \<Longrightarrow> matmul_AT_A (design_AT f) = AtA (design_rows f)"
  by (simp add: design_AT_columns matmul_AT_A_def AtA_def)

lemma ATd_is_Atd: "rect f \<Longrightarrow> matvec (design_AT f) (drop_nan (ravel f)) = Atd (design_rows f) (data_vec f)"
  by (simp add: design_AT_columns matvec_def Atd_def d_valid data_vec_def)

lemma AtA_shape:
  "\<exists>a b c d e f g h i. AtA A = [[a, b, c], [d, e, f], [g, h, i]]"
  by (simp add: AtA_def)

lemma gram_singular_small:
  assumes "length (vp :: vpixel list) < 3"
  shows "mat_det3 (matmul_AT_A [map (\<lambda>_. 1) vp, map (\<lambda>s. real (pcol s)) vp,
                                 map (\<lambda>s. real (prow s)) vp]) = 0"
proof -
  from assms consider "vp = []" | a where "vp = [a]" | a b where "vp = [a, b]"
    by (cases vp; cases "tl vp"; cases "tl (tl vp)") auto
  then show ?thesis
  proof cases
    case 1
    then show ?thesis by (simp add: matmul_AT_A_def dot_def det3_def)
  next
    case 2
    then show ?thesis by (simp add: matmul_AT_A_def dot_def det3_def algebra_simps)
  next
    case 3
    then show ?thesis by (simp add: matmul_AT_A_def dot_def det3_def algebra_simps)
  qed
qed

lemma few_valid_singular:
  assumes "rect f" and "num_valid f < 3"
  shows "mat_det3 (AtA (design_rows f)) = 0"
proof -
  from assms(2) have "length (valid_pixels f) < 3" by (simp add: num_valid_length)
  from gram_singular_small [OF this] show ?thesis
    by (simp add: ATA_is_AtA [OF assms(1), symmetric] design_AT_valid [OF assms(1)])
qed

subsection \<open>Columns of zeros\<close>

lemma dot_zero_left: "\<forall>x \<in> set u. x = 0 \<Longrightarrow> dot u v = 0"
proof (induction u arbitrary: v)
  case Nil
  then show ?case by (simp add: dot_def)
next
  case (Cons x u)
  then have "dot u (tl v) = 0" by simp
  with Cons.prems show ?case by (cases v) (simp_all add: dot_def)
qed

lemma dot_zero_right: "\<forall>x \<in> set v. x = 0 \<Longrightarrow> dot u v = 0"
proof (induction u arbitrary: v)
  case Nil
  then show ?case by (simp add: dot_def)
next
  case (Cons x u)
  show ?case
  proof (cases v)
    case Nil
    then show ?thesis by (simp add: dot_def)
  next
    case (Cons y w)
    with Cons.prems have "dot u w = 0" by (intro Cons.IH) simp
    with Cons Cons.prems show ?thesis by (simp add: dot_def)
  qed
qed

lemma dot_self_nonneg: "0 \<le> dot u u"
  by (induction u) (simp_all add: dot_def)

lemma dot_self_zero: "dot u u = 0 \<longleftrightarrow> (\<forall>x \<in> set u. x = 0)"
proof (induction u)
  case Nil
  then show ?case by (simp add: dot_def)
next
  case (Cons x u)
  have "dot (x # u) (x # u) = x * x + dot u u" by (simp add: dot_def)
  moreover have "x * x + dot u u = 0 \<longleftrightarrow> x = 0 \<and> dot u u = 0"
    using dot_self_nonneg [of u] by (simp add: add_nonneg_eq_0_iff)
  ultimately show ?case using Cons.IH by simp
qed

lemma AtA_entries:
  "AtA A = [[dot (column 0 A) (column 0 A), dot (column 0 A) (column (Suc 0) A),
             dot (column 0 A) (column 2 A)],
            [dot (column (Suc 0) A) (column 0 A), dot (column (Suc 0) A) (column (Suc 0) A),
             dot (column (Suc 0) A) (column 2 A)],
            [dot (column 2 A) (column 0 A), dot (column 2 A) (column (Suc 0) A),
             dot (column 2 A) (column 2 A)]]"
  by (simp add: AtA_def)

lemma linalg_inv_zero_column_1:
  "linalg_inv lu [[a, 0, c], [0, 0, 0], [g, 0, i]] = Inl LinAlgError"
  by (simp add: det3_def)

lemma linalg_inv_zero_column_2:
  "linalg_inv lu [[a, b, 0], [d, e, 0], [0, 0, 0]] = Inl LinAlgError"
  by (simp add: det3_def)

lemma first_column_only:
  assumes "\<forall>s \<in> set (valid_pixels f). pcol s = 0"
  shows "linalg_inv lu (AtA (design_rows f)) = Inl LinAlgError"
proof -
  have z: "\<forall>x \<in> set (column (Suc 0) (design_rows f)). x = 0"
    using assms by (auto simp: column_def design_rows_def)
  show ?thesis
    unfolding AtA_entries
    by (simp only: dot_zero_left [OF z] dot_zero_right [OF z] linalg_inv_zero_column_1)
qed

lemma first_row_only:
  assumes "\<forall>s \<in> set (valid_pixels f). prow s = 0"
  shows "linalg_inv lu (AtA (design_rows f)) = Inl LinAlgError"
proof -
  have z: "\<forall>x \<in> set (column 2 (design_rows f)). x = 0"
    using assms by (auto simp: column_def design_rows_def)
  show ?thesis
    unfolding AtA_entries
    by (simp only: dot_zero_left [OF z] dot_zero_right [OF z] linalg_inv_zero_column_2)
qed

lemma no_zero_column:
  assumes "\<not> (\<forall>s \<in> set (valid_pixels f). pcol s = 0)"
    and "\<not> (\<forall>s \<in> set (valid_pixels f). prow s = 0)"
  shows "\<exists>a b c d e k g h i. AtA (design_rows f) = [[a, b, c], [d, e, k], [g, h, i]]
           \<and> a \<noteq> 0 \<and> e \<noteq> 0 \<and> i \<noteq> 0"
proof -
  from assms(1) have ne: "valid_pixels f \<noteq> []" by auto
  have "\<not> (\<forall>x \<in> set (column 0 (design_rows f)). x = 0)"
    using ne by (cases "valid_pixels f") (simp_all add: column_def design_rows_def)
  then have a: "dot (column 0 (design_rows f)) (column 0 (design_rows f)) \<noteq> 0"
    by (simp only: dot_self_zero not_False_eq_True)
  have "\<not> (\<forall>x \<in> set (column (Suc 0) (design_rows f)). x = 0)"
    using assms(1) by (auto simp: column_def design_rows_def)
  then have e: "dot (column (Suc 0) (design_rows f)) (column (Suc 0) (design_rows f)) \<noteq> 0"
    by (simp only: dot_self_zero not_False_eq_True)
  have "\<not> (\<forall>x \<in> set (column 2 (design_rows f)). x = 0)"
    using assms(2) by (auto simp: column_def design_rows_def)
  then have i: "dot (column 2 (design_rows f)) (column 2 (design_rows f)) \<noteq> 0"
    by (simp only: dot_self_zero not_False_eq_True)
  from a e i show ?thesis
    unfolding AtA_entries by blast
qed

lemma linalg_inv_singular:
  assumes "det3 a b c d e k g h i = 0" and "a \<noteq> 0" and "e \<noteq> 0" and "i \<noteq> 0"
  shows "linalg_inv lu [[a, b, c], [d, e, k], [g, h, i]] =
           (case lu [[a, b, c], [d, e, k], [g, h, i]] of
              None \<Rightarrow> Inl LinAlgError
            | Some R \<Rightarrow> Inr (rows_of R))"
  using assms by simp

lemma linalg_inv_error: "linalg_inv lu M = Inl err \<Longrightarrow> err = LinAlgError"
  by (induction lu M rule: linalg_inv.induct)
     (auto simp: Let_def split: if_splits option.splits)

subsection \<open>The inverse of a 3 by 3 matrix\<close>

lemma solve_by_quotients:
  fixes p q r :: real
  assumes "D \<noteq> 0" and "p * X + q * Y + r * Z = D * t"
  shows "p * (X / D) + q * (Y / D) + r * (Z / D) = t"
proof -
  have "p * (X / D) + q * (Y / D) + r * (Z / D) = (p * X + q * Y + r * Z) / D"
    by (simp add: add_divide_distrib)
  with assms show ?thesis by simp
qed

lemma solve_by_quotients':
  fixes p q r :: real
  assumes "D \<noteq> 0" and "X * p + Y * q + Z * r = D * t"
  shows "X / D * p + Y / D * q + Z / D * r = t"
proof -
  have "X / D * p + Y / D * q + Z / D * r = (X * p + Y * q + Z * r) / D"
    by (simp add: add_divide_distrib)
  with assms show ?thesis by simp
qed

lemma matvec3:
  "matvec [[a, b, c], [d, e, f], [g, h, i]] [x, y, z]
     = [a * x + b * y + c * z, d * x + e * y + f * z, g * x + h * y + i * z]"
  by (simp add: matvec_def dot_def)

lemma linalg_inv_regular:
  assumes "det3 a b c d e f g h i \<noteq> 0"
  shows "linalg_inv lu [[a, b, c], [d, e, f], [g, h, i]] =
           Inr [[(e * i - f * h) / det3 a b c d e f g h i, (c * h - b * i) / det3 a b c d e f g h i,
                 (b * f - c * e) / det3 a b c d e f g h i],
                [(f * g - d * i) / det3 a b c d e f g h i, (a * i - c * g) / det3 a b c d e f g h i,
                 (c * d - a * f) / det3 a b c d e f g h i],
                [(d * h - e * g) / det3 a b c d e f g h i, (b * g - a * h) / det3 a b c d e f g h i,
                 (a * e - b * d) / det3 a b c d e f g h i]]"
  using assms by (simp add: Let_def)

lemma linalg_inv_right:
  assumes "det3 a b c d e f g h i \<noteq> 0"
    and "linalg_inv lu [[a, b, c], [d, e, f], [g, h, i]] = Inr M"
  shows "matvec [[a, b, c], [d, e, f], [g, h, i]] (matvec M [u, v, w]) = [u, v, w]"
proof -
  define D where "D = det3 a b c d e f g h i"
  note nz = assms(1) [folded D_def]
  from assms(2) have M: "M = [[(e * i - f * h) / D, (c * h - b * i) / D, (b * f - c * e) / D],
                              [(f * g - d * i) / D, (a * i - c * g) / D, (c * d - a * f) / D],
                              [(d * h - e * g) / D, (b * g - a * h) / D, (a * e - b * d) / D]]"
    unfolding linalg_inv_regular [OF assms(1)] D_def by simp
  define X where "X = (e * i - f * h) * u + (c * h - b * i) * v + (b * f - c * e) * w"
  define Y where "Y = (f * g - d * i) * u + (a * i - c * g) * v + (c * d - a * f) * w"
  define Z where "Z = (d * h - e * g) * u + (b * g - a * h) * v + (a * e - b * d) * w"
  have mv: "matvec M [u, v, w] = [X / D, Y / D, Z / D]"
    unfolding M matvec3 X_def Y_def Z_def by (simp add: add_divide_distrib)
  have 1: "a * X + b * Y + c * Z = D * u"
    by (simp add: X_def Y_def Z_def D_def det3_def algebra_simps)
  have 2: "d * X + e * Y + f * Z = D * v"
    by (simp add: X_def Y_def Z_def D_def det3_def algebra_simps)
  have 3: "g * X + h * Y + i * Z = D * w"
    by (simp add: X_def Y_def Z_def D_def det3_def algebra_simps)
  show ?thesis
    unfolding mv matvec3
    using solve_by_quotients [OF nz 1] solve_by_quotients [OF nz 2] solve_by_quotients [OF nz 3]
    by simp
qed

lemma linalg_inv_left:
  assumes "det3 a b c d e f g h i \<noteq> 0"
    and "linalg_inv lu [[a, b, c], [d, e, f], [g, h, i]] = Inr M"
  shows "matvec M (matvec [[a, b, c], [d, e, f], [g, h, i]] [x, y, z]) = [x, y, z]"
proof -
  define D where "D = det3 a b c d e f g h i"
  note nz = assms(1) [folded D_def]
  from assms(2) have M: "M = [[(e * i - f * h) / D, (c * h - b * i) / D, (b * f - c * e) / D],
                              [(f * g - d * i) / D, (a * i - c * g) / D, (c * d - a * f) / D],
                              [(d * h - e * g) / D, (b * g - a * h) / D, (a * e - b * d) / D]]"
    unfolding linalg_inv_regular [OF assms(1)] D_def by simp
  define u where "u = a * x + b * y + c * z"
  define v where "v = d * x + e * y + f * z"
  define w where "w = g * x + h * y + i * z"
  have 1: "(e * i - f * h) * u + (c * h - b * i) * v + (b * f - c * e) * w = D * x"
    by (simp add: u_def v_def w_def D_def det3_def algebra_simps)
  have 2: "(f * g - d * i) * u + (a * i - c * g) * v + (c * d - a * f) * w = D * y"
    by (simp add: u_def v_def w_def D_def det3_def algebra_simps)
  have 3: "(d * h - e * g) * u + (b * g - a * h) * v + (a * e - b * d) * w = D * z"
    by (simp add: u_def v_def w_def D_def det3_def algebra_simps)
  show ?thesis
    unfolding M matvec3 u_def [symmetric] v_def [symmetric] w_def [symmetric]
    using solve_by_quotients' [OF nz 1] solve_by_quotients' [OF nz 2] solve_by_quotients' [OF nz 3]
    by simp
qed

lemma matvec_length: "length (matvec M v) = length M"
  by (simp add: matvec_def)

lemma list3: "length (m :: 'a list) = 3 \<Longrightarrow> \<exists>x y z. m = [x, y, z]"
  by (cases m; cases "tl m"; cases "tl (tl m)") auto

subsection \<open>The detrended field\<close>

lemma detrend_pixel:
  "nan_lift2 (-) p (nan_lift2 (+) (nan_lift2 (+) (Some a)
       (nan_lift2 (*) (if isnan p then None else Some x) (Some b)))
       (nan_lift2 (*) (if isnan p then None else Some y) (Some c)))
     = map_option (\<lambda>v. v - (a + b * x + c * y)) p"
  by (cases p) (simp_all add: isnan_def mult.commute)

lemma flat_is_subtract_plane:
  assumes "rect f"
  shows "grid_map2 (nan_lift2 (-)) f
           (eval_plane m (nan_out (meshgrid_xx (ncols f) (nrows f)) f)
                         (nan_out (meshgrid_yy (ncols f) (nrows f)) f))
         = subtract_plane m f"
    (is "?flat = _")
proof (rule nth_equalityI)
  show "length ?flat = length (subtract_plane m f)"
    by (simp add: grid_map2_def eval_plane_def nan_out_def meshgrid_xx_def meshgrid_yy_def
        subtract_plane_def nrows_def)
next
  fix r
  assume "r < length ?flat"
  then have r: "r < nrows f"
    by (simp add: grid_map2_def eval_plane_def nan_out_def meshgrid_xx_def meshgrid_yy_def
        nrows_def)
  then have rl: "r < length f" by (simp add: nrows_def)
  have row: "length (f ! r) = ncols f" by (rule rect_row_length [OF assms r])
  show "?flat ! r = subtract_plane m f ! r"
  proof (rule nth_equalityI)
    show "length (?flat ! r) = length (subtract_plane m f ! r)"
      using rl row
      by (simp add: grid_map2_def eval_plane_def nan_out_def meshgrid_xx_def meshgrid_yy_def
          subtract_plane_def nrows_def)
  next
    fix c
    assume "c < length (?flat ! r)"
    then have c: "c < ncols f"
      using rl row
      by (simp add: grid_map2_def eval_plane_def nan_out_def meshgrid_xx_def meshgrid_yy_def
          nrows_def)
    show "?flat ! r ! c = subtract_plane m f ! r ! c"
      using rl row c detrend_pixel [of "f ! r ! c" "m ! 0" "real c" "m ! 1" "real r" "m ! 2"]
      by (simp add: grid_map2_def eval_plane_def nan_out_def meshgrid_xx_def meshgrid_yy_def
          subtract_plane_def nrows_def plane_at_def mult.commute)
  qed
qed

lemma planefit_unfold:
  assumes "rect f"
  shows "planefit lu f =
          (case linalg_inv lu (AtA (design_rows f)) of
             Inl e \<Rightarrow> Inl e
           | Inr M \<Rightarrow> Inr (matvec M (Atd (design_rows f) (data_vec f)),
                           subtract_plane (matvec M (Atd (design_rows f) (data_vec f))) f))"
  by (simp add: planefit_def Let_def ATA_is_AtA [OF assms] ATd_is_Atd [OF assms]
      flat_is_subtract_plane [OF assms] split: sum.splits)

lemma planefit_error:
  assumes "rect f" and "planefit lu f = Inl err"
  shows "err = LinAlgError"
proof -
  from assms(2) have "linalg_inv lu (AtA (design_rows f)) = Inl err"
    unfolding planefit_unfold [OF assms(1)] by (simp split: sum.splits)
  then show ?thesis by (rule linalg_inv_error)
qed

lemma planefit_zero_column:
  assumes "rect f"
    and "(\<forall>s \<in> set (valid_pixels f). pcol s = 0) \<or> (\<forall>s \<in> set (valid_pixels f). prow s = 0)"
  shows "planefit lu f = Inl LinAlgError"
proof -
  from assms(2) have "linalg_inv lu (AtA (design_rows f)) = Inl LinAlgError"
    using first_column_only [of f lu] first_row_only [of f lu] by blast
  then show ?thesis
    unfolding planefit_unfold [OF assms(1)] by simp
qed

lemma planefit_rounding_decides:
  assumes "rect f" and "mat_det3 (AtA (design_rows f)) = 0"
    and "\<not> (\<forall>s \<in> set (valid_pixels f). pcol s = 0)"
    and "\<not> (\<forall>s \<in> set (valid_pixels f). prow s = 0)"
  shows "planefit lu f =
           (case lu (AtA (design_rows f)) of
              None \<Rightarrow> Inl LinAlgError
            | Some R \<Rightarrow> Inr (matvec (rows_of R) (Atd (design_rows f) (data_vec f)),
                             subtract_plane (matvec (rows_of R) (Atd (design_rows f) (data_vec f))) f))"
proof -
  from no_zero_column [OF assms(3,4)] obtain a b c d e k g h i
    where G: "AtA (design_rows f) = [[a, b, c], [d, e, k], [g, h, i]]"
      and nz: "a \<noteq> 0" "e \<noteq> 0" "i \<noteq> 0"
    by blast
  from assms(2) have dt: "det3 a b c d e k g h i = 0" by (simp add: G)
  show ?thesis
    unfolding planefit_unfold [OF assms(1)] G linalg_inv_singular [OF dt nz]
    by (simp split: option.splits)
qed

lemma planefit_regular:
  assumes "rect f" and "mat_det3 (AtA (design_rows f)) \<noteq> 0"
  shows "\<exists>m flat. planefit lu f = Inr (m, flat)
           \<and> normal_equations (design_rows f) (data_vec f) m
           \<and> (\<forall>m'. normal_equations (design_rows f) (data_vec f) m' \<longrightarrow> m' = m)
           \<and> flat = subtract_plane m f"
proof -
  obtain a b c d e k g h i where G: "AtA (design_rows f) = [[a, b, c], [d, e, k], [g, h, i]]"
    using AtA_shape by blast
  obtain u v w where B: "Atd (design_rows f) (data_vec f) = [u, v, w]"
    by (simp add: Atd_def)
  from assms(2) have nz: "det3 a b c d e k g h i \<noteq> 0" by (simp add: G)
  then obtain M where M: "linalg_inv lu [[a, b, c], [d, e, k], [g, h, i]] = Inr M"
    by (simp add: Let_def)
  define m where "m = matvec M [u, v, w]"
  have fit: "planefit lu f = Inr (m, subtract_plane m f)"
    by (simp add: planefit_unfold [OF assms(1)] G B M m_def del: linalg_inv.simps)
  have len: "length m = 3"
    using M unfolding linalg_inv_regular [OF nz] by (auto simp: m_def matvec_length)
  have sol: "matvec [[a, b, c], [d, e, k], [g, h, i]] m = [u, v, w]"
    unfolding m_def by (rule linalg_inv_right [OF nz M])
  have uniq: "m' = m" if "normal_equations (design_rows f) (data_vec f) m'" for m'
  proof -
    from that have l: "length m' = 3" and e: "matvec [[a, b, c], [d, e, k], [g, h, i]] m' = [u, v, w]"
      by (simp_all add: normal_equations_def G B)
    from list3 [OF l] obtain x y z where m': "m' = [x, y, z]" by blast
    have "matvec M (matvec [[a, b, c], [d, e, k], [g, h, i]] m') = m'"
      unfolding m' by (rule linalg_inv_left [OF nz M])
    then show ?thesis unfolding e m_def by (rule sym)
  qed
  have ne: "normal_equations (design_rows f) (data_vec f) m"
    unfolding normal_equations_def G B using len sol by (rule conjI)
  from fit ne uniq show ?thesis by blast
qed

subsection \<open>Properties of the plane fit\<close>

text \<open>
  Claim C2, as amended. For every field whose matrix \<open>A\<^sup>T A\<close> is not singular (such a
  field has at least 3 valid pixels), the cell returns
  plane coefficients \<open>m\<close> and a detrended field: \<open>m\<close> solves the normal equations
  \<open>(A\<^sup>T A) m = A\<^sup>T d\<close>, where \<open>A\<close> has one row \<open>[1, column, row]\<close> per valid pixel and
  \<open>d\<close> holds the valid pixel values; \<open>m\<close> is the only solution; and the detrended field
  is the input minus \<open>m\<^sub>0 + m\<^sub>1 column + m\<^sub>2 row\<close> at every pixel (a \<^verbatim>\<open>nan\<close> pixel stays
  \<^verbatim>\<open>nan\<close>). This holds whatever the inversion routine does with singular matrices.
\<close>

theorem planefit_normal_equations:
  assumes "rect f" and "mat_det3 (AtA (design_rows f)) \<noteq> 0"
  shows "3 \<le> num_valid f
       \<and> (\<exists>m flat. planefit lu f = Inr (m, flat)
           \<and> normal_equations (design_rows f) (data_vec f) m
           \<and> (\<forall>m'. normal_equations (design_rows f) (data_vec f) m' \<longrightarrow> m' = m)
           \<and> flat = subtract_plane m f)"
proof -
  note fit = planefit_regular [OF assms, of lu]
  have "3 \<le> num_valid f"
  proof (rule ccontr)
    assume "\<not> 3 \<le> num_valid f"
    then have "mat_det3 (AtA (design_rows f)) = 0"
      by (intro few_valid_singular [OF assms(1)]) simp
    with assms(2) show False by simp
  qed
  with fit show ?thesis by (rule_tac conjI)
qed

theorem planefit_normal_equations_witness:
  "rect [[Some 1, None], [Some 2, Some (5::real)]]
   \<and> mat_det3 (AtA (design_rows [[Some 1, None], [Some 2, Some 5]])) \<noteq> 0
   \<and> 3 \<le> num_valid [[Some 1, None], [Some 2, Some 5]]
   \<and> planefit zero_pivot_met [[Some 1, None], [Some 2, Some 5]]
       = Inr ([1, 3, 1], [[Some 0, None], [Some 0, Some 0]])
   \<and> normal_equations (design_rows [[Some 1, None], [Some 2, Some 5]])
        (data_vec [[Some 1, None], [Some 2, Some 5]]) [1, 3, 1]"
proof -
  have r: "rect [[Some 1, None], [Some 2, Some (5::real)]]" by code_simp
  have d: "mat_det3 (AtA (design_rows [[Some 1, None], [Some 2, Some 5]])) \<noteq> 0" by code_simp
  have v: "planefit zero_pivot_met [[Some 1, None], [Some 2, Some 5]]
             = Inr ([1, 3, 1], [[Some 0, None], [Some 0, Some 0]])" by code_simp
  from planefit_normal_equations [OF r d, of zero_pivot_met] r d v show ?thesis by auto
qed

text \<open>
  Three valid pixels are not enough when \<open>A\<^sup>T A\<close> is singular. For the field whose only
  valid pixels are the three of its first row, the row numbers of the valid pixels are
  all 0, the third column of \<open>A\<^sup>T A = [[3, 3, 0], [3, 5, 0], [0, 0, 0]]\<close> is zero, and the
  cell raises (lemma \<open>planefit_zero_column\<close>: for every outcome \<open>lu\<close> of the rounding).
\<close>

theorem planefit_collinear_counterexample:
  "rect [[Some 1, Some 2, Some 3], [None, None, None :: pixel]]
   \<and> num_valid [[Some 1, Some 2, Some 3], [None, None, None]] = 3
   \<and> AtA (design_rows [[Some 1, Some 2, Some 3], [None, None, None]])
       = [[3, 3, 0], [3, 5, 0], [0, 0, 0]]
   \<and> planefit zero_pivot_met [[Some 1, Some 2, Some 3], [None, None, None]] = Inl LinAlgError"
  by code_simp

text \<open>
  Claim C9, as amended. For every field with fewer than 3 valid pixels the matrix
  \<open>A\<^sup>T A\<close> is singular, and the cell, which has no check of its own, does what
  \<^verbatim>\<open>np.linalg.inv\<close> does with it. The cell never fails with \<open>InsufficientDataError\<close>. It
  fails with \<^verbatim>\<open>LinAlgError\<close> when the valid pixels are all in column 0, or all in row 0,
  or there is none (a column of \<open>A\<^sup>T A\<close> is zero), and whenever the factorisation meets a
  zero pivot. Otherwise it does not fail: it returns the plane computed from the matrix
  that the inversion returned, and the field minus that plane.
\<close>

theorem planefit_too_few_valid:
  assumes "rect f" and "num_valid f < 3"
  shows "mat_det3 (AtA (design_rows f)) = 0
       \<and> planefit lu f \<noteq> Inl InsufficientDataError
       \<and> ((\<forall>s \<in> set (valid_pixels f). pcol s = 0) \<or> (\<forall>s \<in> set (valid_pixels f). prow s = 0)
            \<longrightarrow> planefit lu f = Inl LinAlgError)
       \<and> (lu (AtA (design_rows f)) = None \<longrightarrow> planefit lu f = Inl LinAlgError)
       \<and> (\<forall>R. \<not> (\<forall>s \<in> set (valid_pixels f). pcol s = 0)
              \<and> \<not> (\<forall>s \<in> set (valid_pixels f). prow s = 0)
              \<and> lu (AtA (design_rows f)) = Some R
            \<longrightarrow> planefit lu f =
                  Inr (matvec (rows_of R) (Atd (design_rows f) (data_vec f)),
                       subtract_plane (matvec (rows_of R) (Atd (design_rows f) (data_vec f))) f))"
proof -
  note sing = few_valid_singular [OF assms]
  have kind: "planefit lu f \<noteq> Inl InsufficientDataError"
    using planefit_error [OF assms(1), of lu InsufficientDataError] by auto
  have zero: "planefit lu f = Inl LinAlgError"
    if "(\<forall>s \<in> set (valid_pixels f). pcol s = 0) \<or> (\<forall>s \<in> set (valid_pixels f). prow s = 0)"
    using planefit_zero_column [OF assms(1) that] .
  have other: "planefit lu f =
           (case lu (AtA (design_rows f)) of
              None \<Rightarrow> Inl LinAlgError
            | Some R \<Rightarrow> Inr (matvec (rows_of R) (Atd (design_rows f) (data_vec f)),
                             subtract_plane (matvec (rows_of R) (Atd (design_rows f) (data_vec f))) f))"
    if "\<not> (\<forall>s \<in> set (valid_pixels f). pcol s = 0)" and "\<not> (\<forall>s \<in> set (valid_pixels f). prow s = 0)"
    using planefit_rounding_decides [OF assms(1) sing that] .
  have pivot: "planefit lu f = Inl LinAlgError" if n: "lu (AtA (design_rows f)) = None"
  proof (cases "(\<forall>s \<in> set (valid_pixels f). pcol s = 0) \<or> (\<forall>s \<in> set (valid_pixels f). prow s = 0)")
    case True
    then show ?thesis by (rule zero)
  next
    case False
    then have "\<not> (\<forall>s \<in> set (valid_pixels f). pcol s = 0)" "\<not> (\<forall>s \<in> set (valid_pixels f). prow s = 0)"
      by blast+
    from other [OF this] n show ?thesis by simp
  qed
  have ret: "planefit lu f =
                  Inr (matvec (rows_of R) (Atd (design_rows f) (data_vec f)),
                       subtract_plane (matvec (rows_of R) (Atd (design_rows f) (data_vec f))) f)"
    if "\<not> (\<forall>s \<in> set (valid_pixels f). pcol s = 0)" and "\<not> (\<forall>s \<in> set (valid_pixels f). prow s = 0)"
      and "lu (AtA (design_rows f)) = Some R" for R
    using other [OF that(1,2)] that(3) by simp
  from sing kind zero pivot ret show ?thesis by blast
qed

theorem planefit_too_few_valid_witness:
  "rect [[Some 1, Some 2], [None, None :: pixel]]
   \<and> num_valid [[Some 1, Some 2], [None, None]] < 3
   \<and> map prow (valid_pixels [[Some 1, Some 2], [None, None]]) = [0, 0]
   \<and> mat_det3 (AtA (design_rows [[Some 1, Some 2], [None, None]])) = 0
   \<and> planefit zero_pivot_met [[Some 1, Some 2], [None, None]] = Inl LinAlgError"
proof -
  have r: "rect [[Some 1, Some 2], [None, None :: pixel]]" by code_simp
  have n: "num_valid [[Some 1, Some 2], [None, None]] < 3" by code_simp
  have p: "map prow (valid_pixels [[Some 1, Some 2], [None, None]]) = [0, 0]"
    by (simp add: valid_pixels_def)
  have z: "\<forall>s \<in> set (valid_pixels [[Some 1, Some 2], [None, None]]). prow s = 0"
    by (simp add: valid_pixels_def)
  note t = planefit_too_few_valid [OF r n, of zero_pivot_met]
  from t have d: "mat_det3 (AtA (design_rows [[Some 1, Some 2], [None, None]])) = 0"
    by (rule conjunct1)
  from t z have e: "planefit zero_pivot_met [[Some 1, Some 2], [None, None]] = Inl LinAlgError"
    by blast
  from r n p d e show ?thesis by (intro conjI)
qed

text \<open>
  The field with two valid pixels, both in its first row: \<open>A\<^sup>T A = [[2, 1, 0], [1, 1, 0],
  [0, 0, 0]]\<close> has a column of zeros and the cell raises \<^verbatim>\<open>LinAlgError\<close>, not
  \<open>InsufficientDataError\<close> (lemma \<open>planefit_zero_column\<close>: for every outcome \<open>lu\<close> of the
  rounding).
\<close>

theorem planefit_error_kind_counterexample:
  "num_valid [[Some 1, Some 2], [None, None]] < 3
   \<and> AtA (design_rows [[Some 1, Some 2], [None, None]]) = [[2, 1, 0], [1, 1, 0], [0, 0, 0]]
   \<and> planefit zero_pivot_met [[Some 1, Some 2], [None, None]] = Inl LinAlgError
   \<and> planefit zero_pivot_met [[Some 1, Some 2], [None, None]] \<noteq> Inl InsufficientDataError"
  by code_simp

text \<open>
  With two valid pixels that are not both in row 0 and not both in column 0, no column
  of \<open>A\<^sup>T A\<close> is zero, and a factorisation that meets no zero pivot makes the cell
  return a plane.
\<close>

lemma planefit_two_pixels_returns:
  assumes "lu [[2, 3, 1], [3, 5, 2], [1, 2, 1]] = Some R"
  shows "planefit lu [[None, Some 1, None], [None, None, Some 2]]
           = Inr (matvec (rows_of R) [3, 5, 2],
                  subtract_plane (matvec (rows_of R) [3, 5, 2])
                    [[None, Some 1, None], [None, None, Some 2]])"
proof -
  let ?f = "[[None, Some 1, None], [None, None, Some (2::real)]]"
  have r: "rect ?f" by code_simp
  have n: "num_valid ?f < 3" by code_simp
  have G: "AtA (design_rows ?f) = [[2, 3, 1], [3, 5, 2], [1, 2, 1]]" by code_simp
  have B: "Atd (design_rows ?f) (data_vec ?f) = [3, 5, 2]" by code_simp
  have c: "\<not> (\<forall>s \<in> set (valid_pixels ?f). pcol s = 0)" by (simp add: valid_pixels_def)
  have w: "\<not> (\<forall>s \<in> set (valid_pixels ?f). prow s = 0)" by (simp add: valid_pixels_def)
  from planefit_rounding_decides [OF r few_valid_singular [OF r n] c w, of lu] assms
  show ?thesis by (simp add: G B)
qed

subsection \<open>Shapes of the grids\<close>

lemma shapeI: "length g = M \<Longrightarrow> (\<And>row. row \<in> set g \<Longrightarrow> length row = N) \<Longrightarrow> shape M N g"
  by (simp add: shape_def list_all_iff)

lemma shape_rows: "shape M N g \<Longrightarrow> row \<in> set g \<Longrightarrow> length row = N"
  by (simp add: shape_def list_all_iff)

lemma shape_nth: "shape M N g \<Longrightarrow> r < M \<Longrightarrow> length (g ! r) = N"
  by (simp add: shape_def list_all_length)

lemma shape_nrows: "shape M N g \<Longrightarrow> nrows g = M"
  by (simp add: shape_def nrows_def)

lemma shape_ncols: "shape M N g \<Longrightarrow> 0 < M \<Longrightarrow> ncols g = N"
  by (cases g) (simp_all add: shape_def ncols_def)

lemma rect_shape: "rect g \<Longrightarrow> shape (nrows g) (ncols g) g"
  by (simp add: rect_def shape_def nrows_def)

lemma shape_map_map: "shape M N g \<Longrightarrow> shape M N (map (map h) g)"
  by (simp add: shape_def list_all_iff)

lemma shape_table: "shape M N (map (\<lambda>k. map (h k) [0..<N]) [0..<M])"
  by (simp add: shape_def list_all_iff)

lemma length_concat_shape: "shape M N g \<Longrightarrow> length (concat g) = M * N"
proof (induction g arbitrary: M)
  case Nil
  then show ?case by (simp add: shape_def)
next
  case (Cons row g)
  then obtain M' where M: "M = Suc M'" and "shape M' N g" and "length row = N"
    by (cases M) (auto simp: shape_def)
  with Cons.IH [of M'] show ?case by simp
qed

lemma length_fftshift1: "length (fftshift1 xs) = length xs"
  by (simp add: fftshift1_def Let_def)

lemma set_fftshift1: "set (fftshift1 xs) = set xs"
proof -
  have "set (drop p xs @ take p xs) = set (take p xs @ drop p xs)" for p
    by (simp only: set_append Un_commute)
  then show ?thesis by (simp add: fftshift1_def Let_def)
qed

lemma shape_fftshift: "shape M N g \<Longrightarrow> shape M N (fftshift g)"
  by (auto simp: shape_def list_all_iff fftshift_def length_fftshift1 set_fftshift1)

lemma shape_zero_fill: "rect f \<Longrightarrow> shape (nrows f) (ncols f) (zero_fill f)"
  unfolding zero_fill_def by (rule shape_map_map) (rule rect_shape)

lemma nrows_zero_fill: "nrows (zero_fill f) = nrows f"
  by (simp add: zero_fill_def nrows_def)

lemma ncols_zero_fill: "ncols (zero_fill f) = ncols f"
  by (cases f) (simp_all add: zero_fill_def ncols_def)

lemma ncols_table: "ncols (map (\<lambda>k. map (h k) [0..<N]) [0..<M]) = (if M = 0 then 0 else N)"
  by (cases M) (simp_all add: ncols_def upt_conv_Cons del: upt_Suc)

lemma shape_fft2: "shape (nrows z) (ncols z) (fft2 z)"
  unfolding fft2_def Let_def by (rule shape_table)

lemma shape_ifft2: "shape (nrows P) (ncols P) (ifft2 P)"
  unfolding ifft2_def Let_def by (rule shape_table)

lemma ncols_empty: "nrows g = 0 \<Longrightarrow> ncols g = 0"
  by (simp add: nrows_def ncols_def)

lemma shape_dims: "shape M N g \<Longrightarrow> shape (nrows g) (ncols g) g"
  by (cases g) (simp_all add: shape_def nrows_def ncols_def)

lemma dims_of_shape: "shape (nrows z) (ncols z) g \<Longrightarrow> nrows g = nrows z \<and> ncols g = ncols z"
  by (cases "nrows z = 0") (auto simp: shape_nrows shape_ncols ncols_empty)

lemma shape_autocorr_grid:
  assumes "rect f"
  shows "shape (nrows f) (ncols f) (autocorr_grid f)"
proof -
  let ?z = "zero_fill f"
  let ?P = "map (map (\<lambda>w. (Re w)\<^sup>2 + (Im w)\<^sup>2)) (fft2 ?z)"
  have "shape (nrows ?z) (ncols ?z) ?P"
    by (rule shape_map_map) (rule shape_fft2)
  then have dP: "nrows ?P = nrows f" "ncols ?P = ncols f"
    using dims_of_shape [of ?z ?P] by (simp_all add: nrows_zero_fill ncols_zero_fill)
  have "shape (nrows f) (ncols f) (ifft2 ?P)"
    using shape_ifft2 [of ?P] by (simp add: dP)
  then have "shape (nrows f) (ncols f) (fftshift (map (map Re) (ifft2 ?P)))"
    by (intro shape_fftshift shape_map_map)
  then show ?thesis
    unfolding autocorr_grid_def Let_def by (rule shape_map_map)
qed

lemma length_acg: "rect f \<Longrightarrow> length (ravel (autocorr_grid f)) = nrows f * ncols f"
  unfolding ravel_def by (rule length_concat_shape) (rule shape_autocorr_grid)

lemma shape_radial_dist: "shape nr nc (radial_dist nr nc pixsize)"
  by (rule shapeI)
     (auto simp: radial_dist_def Let_def grid_map2_def meshgrid_xx_def meshgrid_yy_def
       set_zip)

lemma length_rd: "length (ravel (radial_dist nr nc pixsize)) = nr * nc"
  unfolding ravel_def by (rule length_concat_shape) (rule shape_radial_dist)

subsection \<open>A fit that succeeds has at least two columns\<close>

lemma pcol_row_valid: "s \<in> set (row_valid r c row) \<Longrightarrow> c \<le> pcol s \<and> pcol s < c + length row"
  by (induction r c row rule: row_valid.induct) fastforce+

lemma pcol_valid_from:
  "\<forall>row \<in> set f. length row = nc \<Longrightarrow> s \<in> set (valid_from r f) \<Longrightarrow> pcol s < nc"
proof (induction f arbitrary: r)
  case Nil
  then show ?case by simp
next
  case (Cons row f)
  then show ?case using pcol_row_valid [of s r 0 row] by auto
qed

lemma pcol_bound: "rect f \<Longrightarrow> s \<in> set (valid_pixels f) \<Longrightarrow> pcol s < ncols f"
  unfolding valid_pixels_def by (rule pcol_valid_from [OF rect_rows])

lemma planefit_one_column:
  assumes "rect f" and "ncols f < 2"
  shows "planefit lu f = Inl LinAlgError"
proof -
  have "\<forall>s \<in> set (valid_pixels f). pcol s = 0"
    using pcol_bound [OF assms(1)] assms(2) by fastforce
  then show ?thesis
    by (intro planefit_zero_column [OF assms(1)]) simp
qed

lemma planefit_Inr_two_columns:
  assumes "rect f" and "planefit lu f = Inr res"
  shows "2 \<le> ncols f"
proof (rule ccontr)
  assume "\<not> 2 \<le> ncols f"
  then have "ncols f < 2" by simp
  from planefit_one_column [OF assms(1) this, of lu] assms(2) show False by simp
qed

lemma shape_subtract_plane: "shape (nrows f) (ncols f) (subtract_plane m f)"
  unfolding subtract_plane_def by (rule shape_table)

lemma planefit_flat_shape:
  assumes "rect f" and "planefit lu f = Inr (m, flat)"
  shows "rect flat" and "nrows flat = nrows f" and "ncols flat = ncols f"
proof -
  from assms have flat: "flat = subtract_plane m f"
    by (auto simp: planefit_unfold split: sum.splits)
  have s: "shape (nrows f) (ncols f) flat"
    unfolding flat by (rule shape_subtract_plane)
  from dims_of_shape [OF s] show "nrows flat = nrows f" and d: "ncols flat = ncols f"
    by simp_all
  from s d show "rect flat"
    by (simp add: shape_def rect_def)
qed

subsection \<open>The cut point\<close>

lemma ceiling_half: "nat \<lceil>real n / 2\<rceil> = (n + 1) div 2"
proof -
  have "\<lceil>real n / 2\<rceil> = int ((n + 1) div 2)"
    by (rule ceiling_unique) (auto simp: field_simps)
  then show ?thesis by simp
qed

lemma rdlen_of_eq: "rdlen_of nr len = nr + (len + 1) div 2"
proof -
  have "\<lceil>real len / 2\<rceil> = int ((len + 1) div 2)"
    using ceiling_half [of len] by linarith
  then show ?thesis by (simp add: rdlen_of_def nat_add_distrib)
qed

lemma rdlen_in_range:
  assumes "2 \<le> nc"
  shows "rdlen_of nr (nr * nc) \<le> nr * nc"
proof -
  have "nr * 2 \<le> nr * nc" using assms by (rule mult_le_mono2)
  then show ?thesis unfolding rdlen_of_eq by linarith
qed

lemma covariance_samples_lengths:
  assumes "rect f" and "planefit lu f = Inr (m, flat)"
  shows "\<exists>rd acg. covariance_samples lu pixsize f = Inr (rd, acg)
           \<and> length rd = nrows f + nat \<lceil>real (nrows f * ncols f) / 2\<rceil>
           \<and> length acg = nrows f + nat \<lceil>real (nrows f * ncols f) / 2\<rceil>
           \<and> rd = take (length rd) (ravel (radial_dist (nrows f) (ncols f) pixsize))
           \<and> acg = take (length acg) (ravel (autocorr_grid flat))
           \<and> nat \<lceil>real (nrows f * ncols f) / 2\<rceil> < length rd
           \<and> length rd \<le> nrows f * ncols f"
proof -
  let ?n = "nrows f * ncols f"
  let ?RD = "ravel (radial_dist (nrows f) (ncols f) pixsize)"
  let ?ACG = "ravel (autocorr_grid flat)"
  have nc: "2 \<le> ncols f" by (rule planefit_Inr_two_columns [OF assms])
  then have nr: "0 < nrows f" by (cases f) (simp_all add: ncols_def nrows_def)
  have lrd: "length ?RD = ?n" by (rule length_rd)
  have lacg: "length ?ACG = ?n"
    using length_acg [OF planefit_flat_shape(1) [OF assms]]
    by (simp add: planefit_flat_shape(2,3) [OF assms])
  have le: "rdlen_of (nrows f) ?n \<le> ?n" by (rule rdlen_in_range [OF nc])
  have eq: "rdlen_of (nrows f) ?n = nrows f + nat \<lceil>real ?n / 2\<rceil>"
    by (simp only: rdlen_of_eq ceiling_half)
  have cs: "covariance_samples lu pixsize f
              = Inr (take (rdlen_of (nrows f) ?n) ?RD, take (rdlen_of (nrows f) ?n) ?ACG)"
    by (simp add: covariance_samples_def assms(2) Let_def lrd)
  have l1: "length (take (rdlen_of (nrows f) ?n) ?RD) = nrows f + nat \<lceil>real ?n / 2\<rceil>"
    using le by (simp add: lrd eq [symmetric] del: of_nat_mult)
  have l2: "length (take (rdlen_of (nrows f) ?n) ?ACG) = nrows f + nat \<lceil>real ?n / 2\<rceil>"
    using le by (simp add: lacg eq [symmetric] del: of_nat_mult)
  show ?thesis
    using cs l1 l2 nr le by (simp add: eq min_absorb2 del: of_nat_mult)
qed

text \<open>
  Claim C6. Whenever the plane fit of cell 4 returns (with the inverse, or with what the
  inversion returned for a singular matrix), cell 5 cuts the flattened distance
  vector and the flattened autocovariance vector to exactly their first
  \<open>rows + \<lceil>len / 2\<rceil>\<close> entries, where \<open>len = rows * columns\<close>; the cut lies inside the
  vectors and keeps more than \<open>\<lceil>len / 2\<rceil>\<close> entries, the half of the grid.
\<close>

theorem cut_lengths:
  assumes "rect f" and "planefit lu f = Inr (m, flat)"
  shows "\<exists>rd acg. covariance_samples lu pixsize f = Inr (rd, acg)
           \<and> length rd = nrows f + nat \<lceil>real (nrows f * ncols f) / 2\<rceil>
           \<and> length acg = nrows f + nat \<lceil>real (nrows f * ncols f) / 2\<rceil>
           \<and> rd = take (length rd) (ravel (radial_dist (nrows f) (ncols f) pixsize))
           \<and> acg = take (length acg) (ravel (autocorr_grid flat))
           \<and> nat \<lceil>real (nrows f * ncols f) / 2\<rceil> < length rd
           \<and> length rd \<le> nrows f * ncols f"
  using assms by (rule covariance_samples_lengths)

theorem cut_lengths_witness:
  "rect [[Some 1, Some 2, Some 3], [Some 2, Some 3, Some 4], [Some 3, Some 4, Some (6::real)]]
   \<and> planefit zero_pivot_met [[Some 1, Some 2, Some 3], [Some 2, Some 3, Some 4], [Some 3, Some 4, Some 6]]
       = Inr ([7 / 9, 7 / 6, 7 / 6],
              [[Some (2 / 9), Some (1 / 18), Some (- (1 / 9))],
               [Some (1 / 18), Some (- (1 / 9)), Some (- (5 / 18))],
               [Some (- (1 / 9)), Some (- (5 / 18)), Some (5 / 9)]])
   \<and> (\<exists>rd acg. covariance_samples zero_pivot_met 30 [[Some 1, Some 2, Some 3], [Some 2, Some 3, Some 4],
                                           [Some 3, Some 4, Some 6]] = Inr (rd, acg)
          \<and> length rd = 3 + 5 \<and> length acg = 3 + 5 \<and> 5 < length rd \<and> length rd \<le> 9)"
proof -
  let ?f = "[[Some 1, Some 2, Some 3], [Some 2, Some 3, Some 4], [Some 3, Some 4, Some (6::real)]]"
  have r: "rect ?f" by code_simp
  have v: "planefit zero_pivot_met ?f = Inr ([7 / 9, 7 / 6, 7 / 6],
              [[Some (2 / 9), Some (1 / 18), Some (- (1 / 9))],
               [Some (1 / 18), Some (- (1 / 9)), Some (- (5 / 18))],
               [Some (- (1 / 9)), Some (- (5 / 18)), Some (5 / 9)]])" by code_simp
  have n: "nrows ?f = 3" "ncols ?f = 3" by (simp_all add: nrows_def ncols_def)
  have c: "nat \<lceil>real (3 * 3) / 2\<rceil> = 5" by simp
  from cut_lengths [OF r v, of 30] show ?thesis
    unfolding n c using r v by auto
qed

subsection \<open>The radial average\<close>

lemma upto_as_nats: "[0..int n - 1] = map int [0..<n]"
proof (induction n)
  case 0
  then show ?case by simp
next
  case (Suc n)
  have "[0..int (Suc n) - 1] = [0..int n - 1] @ [int n]"
    using upto_rec2 [of 0 "int n"] by simp
  with Suc show ?case by simp
qed


lemma maximum_Inl: "maximum xs = Inl e \<Longrightarrow> xs = [] \<and> e = ValueError"
  by (cases xs) auto

lemma ceiling_bin:
  assumes "0 < w"
  shows "\<lceil>r / w\<rceil> = int b + 1 \<longleftrightarrow> real b * w < r \<and> r \<le> (real b + 1) * w"
proof -
  have "\<lceil>r / w\<rceil> = int b + 1 \<longleftrightarrow> real b < r / w \<and> r / w \<le> real b + 1"
    by (simp add: ceiling_eq_iff)
  also have "\<dots> \<longleftrightarrow> real b * w < r \<and> r \<le> (real b + 1) * w"
    using assms by (simp add: pos_less_divide_eq pos_divide_le_eq)
  finally show ?thesis .
qed


lemma filter_bin_samples:
  "map snd (filter (\<lambda>(k, a). k = c)
       (zip (map (\<lambda>r. \<lceil>r / w\<rceil>) (map fst K)) (map snd K)))
   = map snd (filter (\<lambda>(r, a). \<lceil>r / w\<rceil> = c) K)"
  by (induction K) auto

lemma maxdist_min:
  "(if xcent < ycent then xcent * pixsize else ycent * pixsize) = min xcent ycent * (pixsize :: real)"
  by (simp add: min_def)

lemma bin_row_samples:
  assumes "0 < pixsize"
  shows "map snd (filter (\<lambda>(k, a). k = int b + 1)
           (zip (rdbin_of (pixsize * 2)
                   (map fst (filter (\<lambda>(r, a). r < min xcent ycent * pixsize) (zip rd acg))))
                (map snd (filter (\<lambda>(r, a). r < min xcent ycent * pixsize) (zip rd acg)))))
         = samples_in_bin pixsize xcent ycent rd acg b"
proof -
  have w: "0 < pixsize * 2" using assms by simp
  have "filter (\<lambda>(r, a). \<lceil>r / (pixsize * 2)\<rceil> = int b + 1)
          (filter (\<lambda>(r, a). r < min xcent ycent * pixsize) (zip rd acg))
        = filter (\<lambda>(r, a). r < min xcent ycent * pixsize
                    \<and> real b * (2 * pixsize) < r \<and> r \<le> (real b + 1) * (2 * pixsize))
            (zip rd acg)"
    unfolding filter_filter
    by (rule filter_cong) (auto simp: ceiling_bin [OF w] mult.commute [of 2 pixsize])
  then show ?thesis
    unfolding rdbin_of_def filter_bin_samples samples_in_bin_def by simp
qed

lemma bin_cell_rows:
  assumes "0 < pixsize" and "length rd = length acg"
    and "bin_cell pixsize xcent ycent rd acg = Inr cvdav"
  shows "cvdav = map (\<lambda>b. (real b * (2 * pixsize),
                           np_mean (samples_in_bin pixsize xcent ycent rd acg b)))
                   [0..<length cvdav]"
proof -
  let ?K = "filter (\<lambda>(r, a). r < min xcent ycent * pixsize) (zip rd acg)"
  let ?rdbin = "rdbin_of (pixsize * 2) (map fst ?K)"
  from assms(2,3) obtain mx where mx: "maximum ?rdbin = Inr mx" and pos: "\<not> mx < 0"
    and cv: "cvdav = map (\<lambda>b. (real_of_int b * (pixsize * 2),
                 np_mean (map snd (filter (\<lambda>(k, a). k = b + 1) (zip ?rdbin (map snd ?K))))))
               [0..mx - 1]"
    by (auto simp: bin_cell_def Let_def maxdist_min split: sum.splits if_splits)
  from pos have "[0..mx - 1] = map int [0..<nat mx]"
    using upto_as_nats [of "nat mx"] by simp
  with cv have cv': "cvdav = map (\<lambda>b. (real b * (2 * pixsize),
                 np_mean (map snd (filter (\<lambda>(k, a). k = int b + 1) (zip ?rdbin (map snd ?K))))))
               [0..<nat mx]"
    by (simp add: comp_def mult.commute)
  then have len: "length cvdav = nat mx" by simp
  show ?thesis
    using cv' unfolding len bin_row_samples [OF assms(1)] .
qed

lemma np_sum_Fin: "foldl np_add (Fin a) (map Fin vs) = Fin (a + sum_list vs)"
  by (induction vs arbitrary: a) (simp_all add: add.assoc)



lemma filter_update_outside:
  "i < length xs \<Longrightarrow> \<not> P (xs ! i) \<Longrightarrow> \<not> P y \<Longrightarrow> filter P (xs[i := y]) = filter P xs"
proof (induction xs arbitrary: i)
  case Nil
  then show ?case by simp
next
  case (Cons x xs)
  then show ?case by (cases i) auto
qed

lemma map_fst_filter_update:
  "i < length xs \<Longrightarrow> fst y = fst (xs ! i) \<Longrightarrow>
   map fst (filter (\<lambda>(r, a). Q r) (xs[i := y])) = map fst (filter (\<lambda>(r, a). Q r) xs)"
proof (induction xs arbitrary: i)
  case Nil
  then show ?case by simp
next
  case (Cons x xs)
  then show ?case by (cases i) (auto simp: case_prod_beta)
qed

lemma bin_cell_samples:
  "bin_cell pixsize xcent ycent rd acg =
     (if length rd \<noteq> length acg then Inl IndexError
      else case maximum (rdbin_of (pixsize * 2)
                  (map fst (filter (\<lambda>(r, a). r < min xcent ycent * pixsize) (zip rd acg)))) of
             Inl e \<Rightarrow> Inl e
           | Inr mx \<Rightarrow>
               if mx < 0 then Inl ValueError
               else Inr (map (\<lambda>b. (real_of_int b * (pixsize * 2),
                      np_mean (map snd (filter (\<lambda>(r, a). r < min xcent ycent * pixsize
                                                   \<and> \<lceil>r / (pixsize * 2)\<rceil> = b + 1) (zip rd acg)))))
                    [0..mx - 1]))"
proof -
  have inner: "map snd (filter (\<lambda>(k, a). k = b + 1)
          (zip (rdbin_of (pixsize * 2)
                  (map fst (filter (\<lambda>(r, a). r < min xcent ycent * pixsize) (zip rd acg))))
               (map snd (filter (\<lambda>(r, a). r < min xcent ycent * pixsize) (zip rd acg)))))
        = map snd (filter (\<lambda>(r, a). r < min xcent ycent * pixsize
                                  \<and> \<lceil>r / (pixsize * 2)\<rceil> = b + 1) (zip rd acg))" for b
    unfolding rdbin_of_def filter_bin_samples filter_filter
    by (simp add: case_prod_unfold)
  show ?thesis
    unfolding bin_cell_def Let_def maxdist_min inner by simp
qed

lemma bin_cell_zero_distance:
  assumes "length rd = length acg" and "i < length rd" and "rd ! i = 0"
  shows "bin_cell pixsize xcent ycent rd (acg[i := v]) = bin_cell pixsize xcent ycent rd acg"
proof -
  have z: "zip rd (acg[i := v]) = (zip rd acg)[i := (rd ! i, v)]"
    using assms(1,2) by (simp add: zip_update [symmetric])
  have i: "i < length (zip rd acg)" using assms(1,2) by simp
  have kept: "map fst (filter (\<lambda>(r, a). r < min xcent ycent * pixsize) (zip rd (acg[i := v])))
            = map fst (filter (\<lambda>(r, a). r < min xcent ycent * pixsize) (zip rd acg))"
    unfolding z using assms(1,2) by (intro map_fst_filter_update [OF i]) simp
  have rows: "filter (\<lambda>(r, a). r < min xcent ycent * pixsize \<and> \<lceil>r / (pixsize * 2)\<rceil> = b + 1)
                (zip rd (acg[i := v]))
            = filter (\<lambda>(r, a). r < min xcent ycent * pixsize \<and> \<lceil>r / (pixsize * 2)\<rceil> = b + 1)
                (zip rd acg)" if "0 \<le> b" for b :: int
    unfolding z using assms that by (intro filter_update_outside [OF i]) simp_all
  have rowmap: "map (\<lambda>b. (real_of_int b * (pixsize * 2),
               np_mean (map snd (filter (\<lambda>(r, a). r < min xcent ycent * pixsize
                                   \<and> \<lceil>r / (pixsize * 2)\<rceil> = b + 1) (zip rd (acg[i := v])))))) [0..mx - 1]
      = map (\<lambda>b. (real_of_int b * (pixsize * 2),
               np_mean (map snd (filter (\<lambda>(r, a). r < min xcent ycent * pixsize
                                   \<and> \<lceil>r / (pixsize * 2)\<rceil> = b + 1) (zip rd acg))))) [0..mx - 1]" for mx
    by (rule map_cong [OF refl]) (simp add: rows)
  show ?thesis
    unfolding bin_cell_samples kept rowmap using assms(1) by simp
qed











subsection \<open>The distances of an 8 by 4 grid\<close>

lemma upt_0_4: "[0..<4] = [0, 1, 2, 3]" by (simp add: upt_rec)
lemma upt_0_8: "[0..<8] = [0, 1, 2, 3, 4, 5, 6, 7]" by (simp add: upt_rec)
lemma replicate_8: "replicate 8 x = [x, x, x, x, x, x, x, x]" by (simp add: numeral_eq_Suc)
lemma replicate_4: "replicate 4 x = [x, x, x, x]" by (simp add: numeral_eq_Suc)

lemma rd_8_by_4:
  "take (rdlen_of 8 32) (ravel (radial_dist 8 4 30)) =
     [sqrt 34 * 30, sqrt 29 * 30, sqrt 26 * 30, 150,
      150, sqrt 20 * 30, sqrt 17 * 30, 120,
      sqrt 18 * 30, sqrt 13 * 30, sqrt 10 * 30, 90,
      sqrt 13 * 30, sqrt 8 * 30, sqrt 5 * 30, 60,
      sqrt 10 * 30, sqrt 5 * 30, sqrt 2 * 30, 30,
      90, 60, 30, 0]"
  by (simp add: rdlen_of_eq ravel_def radial_dist_def Let_def cent_of_def grid_map2_def
      meshgrid_xx_def meshgrid_yy_def upt_0_4 upt_0_8 replicate_8 replicate_4)

lemma sqrt_cut: "sqrt x * 30 < 90 \<longleftrightarrow> x < 9"
proof -
  have "sqrt x * 30 < 90 \<longleftrightarrow> sqrt x < sqrt 9" by simp
  then show ?thesis by (simp only: real_sqrt_less_iff)
qed

lemma sqrt_pos_30: "0 < sqrt x * 30 \<longleftrightarrow> 0 < x"
  by simp

lemma sqrt_lt_60: "sqrt x * 30 < 60 \<longleftrightarrow> x < 4"
proof -
  have "sqrt x * 30 < 60 \<longleftrightarrow> sqrt x < sqrt 4" by simp
  then show ?thesis by (simp only: real_sqrt_less_iff)
qed

lemma ceil_sqrt_half:
  assumes "4 * (real n)\<^sup>2 < x" and "x \<le> 4 * (real n + 1)\<^sup>2"
  shows "\<lceil>sqrt x / 2\<rceil> = int n + 1"
proof -
  have "(2 * real n)\<^sup>2 < x" using assms(1) by (simp add: power_mult_distrib)
  then have lo: "2 * real n < sqrt x" by (rule real_less_rsqrt)
  have "x \<le> (2 * (real n + 1))\<^sup>2" using assms(2) by (simp add: power2_eq_square algebra_simps)
  then have hi: "sqrt x \<le> 2 * (real n + 1)" by (intro real_le_lsqrt) simp_all
  show ?thesis
    by (rule ceiling_unique) (use lo hi in simp_all)
qed

lemma ceil_sqrt_2_half: "\<lceil>sqrt 2 / 2\<rceil> = 1" using ceil_sqrt_half [of 0 2] by simp
lemma ceil_sqrt_5_half: "\<lceil>sqrt 5 / 2\<rceil> = 2" using ceil_sqrt_half [of 1 5] by simp
lemma ceil_sqrt_8_half: "\<lceil>sqrt 8 / 2\<rceil> = 2" using ceil_sqrt_half [of 1 8] by simp

lemma ceil_one_half: "\<lceil>1 / 2 :: real\<rceil> = 1"
  by (rule ceiling_unique) simp_all

lemma upto_0_1: "[0..(1::int)] = [0, 1]"
  by (simp add: upto.simps)

lemma bin_cell_eval:
  assumes "length rd = length acg"
    and "filter (\<lambda>(r, a). r < min xcent ycent * pixsize) (zip rd acg) = K"
    and "rdbin_of (pixsize * 2) (map fst K) = bins"
    and "maximum bins = Inr mx" and "0 \<le> mx"
  shows "bin_cell pixsize xcent ycent rd acg =
           Inr (map (\<lambda>b. (real_of_int b * (pixsize * 2),
                           np_mean (map snd (filter (\<lambda>(k, a). k = b + 1) (zip bins (map snd K))))))
                  [0..mx - 1])"
  unfolding bin_cell_def Let_def maxdist_min assms(2) assms(3)
  using assms(1,4,5) by simp

lemma bin_8_by_4:
  "bin_cell 30 (cent_of 4) (cent_of 8)
     [sqrt 34 * 30, sqrt 29 * 30, sqrt 26 * 30, 150,
      150, sqrt 20 * 30, sqrt 17 * 30, 120,
      sqrt 18 * 30, sqrt 13 * 30, sqrt 10 * 30, 90,
      sqrt 13 * 30, sqrt 8 * 30, sqrt 5 * 30, 60,
      sqrt 10 * 30, sqrt 5 * 30, sqrt 2 * 30, 30,
      90, 60, 30, 0]
     [Fin 0, Fin 1, Fin 2, Fin 3, Fin 4, Fin 5, Fin 6, Fin 7, Fin 8, Fin 9, Fin 10, Fin 11,
      Fin 12, Fin 13, Fin 14, Fin 15, Fin 16, Fin 17, Fin 18, Fin 19, Fin 20, Fin 21, Fin 22, Fin 23]
   = Inr [(0, Fin 19), (60, Fin (44 / 3))]"
proof -
  let ?rd = "[sqrt 34 * 30, sqrt 29 * 30, sqrt 26 * 30, 150,
      150, sqrt 20 * 30, sqrt 17 * 30, 120,
      sqrt 18 * 30, sqrt 13 * 30, sqrt 10 * 30, 90,
      sqrt 13 * 30, sqrt 8 * 30, sqrt 5 * 30, 60,
      sqrt 10 * 30, sqrt 5 * 30, sqrt 2 * 30, 30,
      90, 60, 30, 0 :: real]"
  let ?acg = "[Fin 0, Fin 1, Fin 2, Fin 3, Fin 4, Fin 5, Fin 6, Fin 7, Fin 8, Fin 9, Fin 10, Fin 11,
      Fin 12, Fin 13, Fin 14, Fin 15, Fin 16, Fin 17, Fin 18, Fin 19, Fin 20, Fin 21, Fin 22, Fin 23]"
  let ?K = "[(sqrt 8 * 30, Fin 13), (sqrt 5 * 30, Fin 14), (60, Fin 15),
             (sqrt 5 * 30, Fin 17), (sqrt 2 * 30, Fin 18), (30, Fin 19),
             (60, Fin 21), (30, Fin 22), (0 :: real, Fin 23)]"
  have l: "length ?rd = length ?acg" by simp
  have K: "filter (\<lambda>(r, a). r < min (cent_of 4) (cent_of 8) * 30) (zip ?rd ?acg) = ?K"
    by (simp add: cent_of_def sqrt_cut)
  have bins: "rdbin_of (30 * 2) (map fst ?K) = [2, 2, 1, 2, 1, 1, 1, 1, 0]"
    by (simp add: rdbin_of_def ceil_sqrt_2_half ceil_sqrt_5_half ceil_sqrt_8_half ceil_one_half)
  have mx: "maximum [2, 2, 1, 2, 1, 1, 1, 1, 0] = Inr 2" by simp
  have "bin_cell 30 (cent_of 4) (cent_of 8) ?rd ?acg =
          Inr (map (\<lambda>b. (real_of_int b * (30 * 2),
                  np_mean (map snd (filter (\<lambda>(k, a). k = b + 1)
                     (zip [2, 2, 1, 2, 1, 1, 1, 1, 0] (map snd ?K))))))
                [0..2 - 1])"
    by (rule bin_cell_eval [OF l K bins mx]) simp
  then show ?thesis
    by (simp add: upto_0_1 np_mean_def np_sum_def)
qed

lemma strict_8_by_4:
  "strict_first_bin 30 (cent_of 4) (cent_of 8)
     [sqrt 34 * 30, sqrt 29 * 30, sqrt 26 * 30, 150,
      150, sqrt 20 * 30, sqrt 17 * 30, 120,
      sqrt 18 * 30, sqrt 13 * 30, sqrt 10 * 30, 90,
      sqrt 13 * 30, sqrt 8 * 30, sqrt 5 * 30, 60,
      sqrt 10 * 30, sqrt 5 * 30, sqrt 2 * 30, 30,
      90, 60, 30, 0]
     [Fin 0, Fin 1, Fin 2, Fin 3, Fin 4, Fin 5, Fin 6, Fin 7, Fin 8, Fin 9, Fin 10, Fin 11,
      Fin 12, Fin 13, Fin 14, Fin 15, Fin 16, Fin 17, Fin 18, Fin 19, Fin 20, Fin 21, Fin 22, Fin 23]
   = Fin (59 / 3)"
  by (simp add: strict_first_bin_def cent_of_def sqrt_cut sqrt_lt_60
      np_mean_def np_sum_def)

subsection \<open>Properties of the radial average\<close>



text \<open>
  Claim C10, as amended. A sample at distance 0 has bin number 0 and enters no row of the
  profile (any other value in its place gives the same profile), and the first row is
  labelled 0 and holds the mean of the samples at distances \<open>r\<close> with
  \<open>0 < r \<le> 2 * pixsize\<close> below the cut-off: the bin width itself is included.
\<close>

theorem zero_distance_sample_unbinned:
  assumes "0 < pixsize" and "length rd = length acg"
    and "bin_cell pixsize xcent ycent rd acg = Inr cvdav"
  shows "rdbin_of (pixsize * 2) [0] = [0]
       \<and> (\<forall>i v. i < length rd \<and> rd ! i = 0
             \<longrightarrow> bin_cell pixsize xcent ycent rd (acg[i := v]) = Inr cvdav)
       \<and> (cvdav \<noteq> [] \<longrightarrow>
            cvdav ! 0 = (0, np_mean (map snd (filter (\<lambda>(r, a). r < min xcent ycent * pixsize
                                                       \<and> 0 < r \<and> r \<le> 2 * pixsize)
                                        (zip rd acg)))))"
proof -
  have "cvdav ! 0 = (0, np_mean (samples_in_bin pixsize xcent ycent rd acg 0))"
    if "cvdav \<noteq> []"
  proof -
    from that have "0 < length cvdav" by simp
    then have "map (\<lambda>b. (real b * (2 * pixsize),
                           np_mean (samples_in_bin pixsize xcent ycent rd acg b)))
                   [0..<length cvdav] ! 0
               = (0, np_mean (samples_in_bin pixsize xcent ycent rd acg 0))"
      by (simp del: upt_Suc)
    with bin_cell_rows [OF assms] show ?thesis by simp
  qed
  then show ?thesis
    using bin_cell_zero_distance [OF assms(2), of _ pixsize xcent ycent] assms(3)
    by (simp add: rdbin_of_def samples_in_bin_def)
qed

theorem zero_distance_sample_unbinned_witness:
  "(0::real) < 30
   \<and> length (take (rdlen_of 8 32) (ravel (radial_dist 8 4 30))) = length
       [Fin 0, Fin 1, Fin 2, Fin 3, Fin 4, Fin 5, Fin 6, Fin 7, Fin 8, Fin 9, Fin 10, Fin 11,
      Fin 12, Fin 13, Fin 14, Fin 15, Fin 16, Fin 17, Fin 18, Fin 19, Fin 20, Fin 21, Fin 22, Fin 23]
   \<and> bin_cell 30 (cent_of 4) (cent_of 8) (take (rdlen_of 8 32) (ravel (radial_dist 8 4 30)))
       [Fin 0, Fin 1, Fin 2, Fin 3, Fin 4, Fin 5, Fin 6, Fin 7, Fin 8, Fin 9, Fin 10, Fin 11,
      Fin 12, Fin 13, Fin 14, Fin 15, Fin 16, Fin 17, Fin 18, Fin 19, Fin 20, Fin 21, Fin 22, Fin 23]
     = Inr [(0, Fin 19), (60, Fin (44 / 3))]
   \<and> take (rdlen_of 8 32) (ravel (radial_dist 8 4 30)) ! 23 = 0
   \<and> bin_cell 30 (cent_of 4) (cent_of 8) (take (rdlen_of 8 32) (ravel (radial_dist 8 4 30)))
       ([Fin 0, Fin 1, Fin 2, Fin 3, Fin 4, Fin 5, Fin 6, Fin 7, Fin 8, Fin 9, Fin 10, Fin 11,
      Fin 12, Fin 13, Fin 14, Fin 15, Fin 16, Fin 17, Fin 18, Fin 19, Fin 20, Fin 21, Fin 22, Fin 23]
        [23 := Fin 1000])
     = Inr [(0, Fin 19), (60, Fin (44 / 3))]"
proof -
  let ?rd = "take (rdlen_of 8 32) (ravel (radial_dist 8 4 30))"
  let ?acg = "[Fin 0, Fin 1, Fin 2, Fin 3, Fin 4, Fin 5, Fin 6, Fin 7, Fin 8, Fin 9, Fin 10, Fin 11,
      Fin 12, Fin 13, Fin 14, Fin 15, Fin 16, Fin 17, Fin 18, Fin 19, Fin 20, Fin 21, Fin 22, Fin 23]"
  have p: "(0::real) < 30" by simp
  have l: "length ?rd = length ?acg" unfolding rd_8_by_4 by simp
  have b: "bin_cell 30 (cent_of 4) (cent_of 8) ?rd ?acg = Inr [(0, Fin 19), (60, Fin (44 / 3))]"
    unfolding rd_8_by_4 by (rule bin_8_by_4)
  have z: "23 < length ?rd \<and> ?rd ! 23 = 0" unfolding rd_8_by_4 by simp
  note u = zero_distance_sample_unbinned [OF p l b, THEN conjunct2, THEN conjunct1,
      rule_format, OF z, of "Fin 1000"]
  from p l b z u show ?thesis by (intro conjI) (assumption | erule conjunct2)+
qed

text \<open>
  On the grid of 8 rows and 4 columns with pixel size 30 the cell of distance 0 is inside
  the cut (index 23 of the flattened grid). \<^verbatim>\<open>fftshift\<close> puts entry (0, 0) of an 8 by 4
  array, the zero lag of the inverse transform, at index 18, where the distance is
  \<open>sqrt 2 * 30\<close> and not 0. With the sample values 0 to 23, the first profile value is
  19, the mean of the five samples 15, 18, 19, 21 and 22 in \<open>(0, 60]\<close>, two of them (15
  and 21) at distance 60 exactly; the mean of the samples strictly between 0 and 60 is
  \<open>59 / 3\<close>.
\<close>

theorem first_bin_boundary_counterexample:
  "take (rdlen_of 8 32) (ravel (radial_dist 8 4 30)) ! 23 = 0
   \<and> ravel (fftshift [[0, 1, 2, 3], [4, 5, 6, 7], [8, 9, 10, 11], [12, 13, 14, 15],
                       [16, 17, 18, 19], [20, 21, 22, 23], [24, 25, 26, 27],
                       [28, 29, 30, 31 :: nat]]) ! 18 = 0
   \<and> take (rdlen_of 8 32) (ravel (radial_dist 8 4 30)) ! 18 = sqrt 2 * 30
   \<and> take (rdlen_of 8 32) (ravel (radial_dist 8 4 30)) ! 21 = 2 * 30
   \<and> take (rdlen_of 8 32) (ravel (radial_dist 8 4 30)) ! 15 = 2 * 30
   \<and> bin_cell 30 (cent_of 4) (cent_of 8) (take (rdlen_of 8 32) (ravel (radial_dist 8 4 30)))
       [Fin 0, Fin 1, Fin 2, Fin 3, Fin 4, Fin 5, Fin 6, Fin 7, Fin 8, Fin 9, Fin 10, Fin 11,
      Fin 12, Fin 13, Fin 14, Fin 15, Fin 16, Fin 17, Fin 18, Fin 19, Fin 20, Fin 21, Fin 22, Fin 23]
     = Inr [(0, Fin 19), (60, Fin (44 / 3))]
   \<and> strict_first_bin 30 (cent_of 4) (cent_of 8) (take (rdlen_of 8 32) (ravel (radial_dist 8 4 30)))
       [Fin 0, Fin 1, Fin 2, Fin 3, Fin 4, Fin 5, Fin 6, Fin 7, Fin 8, Fin 9, Fin 10, Fin 11,
      Fin 12, Fin 13, Fin 14, Fin 15, Fin 16, Fin 17, Fin 18, Fin 19, Fin 20, Fin 21, Fin 22, Fin 23]
     = Fin (59 / 3)"
proof -
  have "ravel (fftshift [[0, 1, 2, 3], [4, 5, 6, 7], [8, 9, 10, 11], [12, 13, 14, 15],
                       [16, 17, 18, 19], [20, 21, 22, 23], [24, 25, 26, 27],
                       [28, 29, 30, 31 :: nat]]) ! 18 = 0"
    by (simp add: ravel_def fftshift_def fftshift1_def)
  then show ?thesis
    unfolding rd_8_by_4 bin_8_by_4 strict_8_by_4 by simp
qed

subsection \<open>The penalty functions\<close>

text \<open>
  What the notebook hands to \<^verbatim>\<open>scipy.optimize.minimize\<close>. The amplitude \<open>a\<close> is the
  value of the first row of the profile whatever the parameters are. For a profile of
  finite values the penalty of the exponential fit at \<open>alpha\<close> is the Euclidean norm of
  the residuals \<open>cvdav[i,1] - a exp(- alpha cvdav[i,0])\<close>, and the penalty of the
  exponential-cosine fit at \<open>(alpha, beta)\<close> is the norm of
  \<open>cvdav[i,1] - a exp(- alpha cvdav[i,0]) cos(beta cvdav[i,0])\<close>. For a profile with a
  \<^verbatim>\<open>nan\<close> value (a bin without samples) both penalties are \<^verbatim>\<open>nan\<close> at every parameter.
  Both fitted curves take the value \<open>a\<close> at distance 0. Whether the parameters that the
  search returns minimise the penalty is a matter of the search.
\<close>

lemma np_sum_Fin_list: "np_sum (map Fin vs) = Fin (sum_list vs)"
  by (simp add: np_sum_def np_sum_Fin)

lemma norm2_finite: "norm2 (map Fin vs) = Fin (sqrt (sum_list (map (\<lambda>x. x\<^sup>2) vs)))"
proof -
  have sq: "map np_square (map Fin vs) = map Fin (map (\<lambda>x. x\<^sup>2) vs)"
    by (simp add: power2_eq_square)
  have "0 \<le> sum_list (map (\<lambda>x. x\<^sup>2) vs)"
    by (rule sum_list_nonneg) auto
  then have nn: "\<not> sum_list (map (\<lambda>x. x\<^sup>2) vs) < 0" by simp
  show ?thesis
    unfolding norm2_def sq np_sum_Fin_list using nn by simp
qed

lemma sum_list_squares: "sum_list (map (\<lambda>x. (g x)\<^sup>2) xs) = (\<Sum>i<length xs. (g (xs ! i))\<^sup>2)"
  by (simp add: sum_list_sum_nth atLeast0LessThan)

lemma norm2_map_Fin:
  "norm2 (map Fin (map g xs)) = Fin (sqrt (\<Sum>i<length xs. (g (xs ! i))\<^sup>2))"
proof -
  have "map (\<lambda>x. x\<^sup>2) (map g xs) = map (\<lambda>x. (g x)\<^sup>2) xs" by simp
  then show ?thesis
    unfolding norm2_finite by (simp only: sum_list_squares)
qed

lemma pendiffexp_finite:
  assumes "cv \<noteq> []"
  shows "pendiffexp [alpha] (map (\<lambda>(r, v). (r, Fin v)) cv) =
           Inr (Fin (sqrt (\<Sum>i<length cv.
                  (snd (cv ! i) - snd (cv ! 0) * exp (- alpha * fst (cv ! i)))\<^sup>2)))"
proof -
  from assms obtain r0 a rest where cv: "cv = (r0, a) # rest" by (cases cv) auto
  have res: "map (\<lambda>(r, c). np_sub c (np_scale (Fin a) (exp (- alpha * r))))
               (map (\<lambda>(r, v). (r, Fin v)) cv)
             = map Fin (map (\<lambda>p. snd p - a * exp (- alpha * fst p)) cv)"
    by (simp add: np_sub_def case_prod_unfold)
  have a0: "snd (cv ! 0) = a" by (simp add: cv)
  have "pendiffexp [alpha] (map (\<lambda>(r, v). (r, Fin v)) cv)
          = Inr (norm2 (map Fin (map (\<lambda>p. snd p - a * exp (- alpha * fst p)) cv)))"
    unfolding res [symmetric] by (simp add: pendiffexp_def cv)
  then show ?thesis
    unfolding a0 by (simp only: norm2_map_Fin)
qed

lemma pendiffexpcos_finite:
  assumes "cv \<noteq> []"
  shows "pendiffexpcos [alpha, beta] (map (\<lambda>(r, v). (r, Fin v)) cv) =
           Inr (Fin (sqrt (\<Sum>i<length cv.
                  (snd (cv ! i) - snd (cv ! 0) * exp (- alpha * fst (cv ! i))
                                    * cos (beta * fst (cv ! i)))\<^sup>2)))"
proof -
  from assms obtain r0 a rest where cv: "cv = (r0, a) # rest" by (cases cv) auto
  have res: "map (\<lambda>(r, c). np_sub c (np_scale (np_scale (Fin a) (exp (- alpha * r))) (cos (beta * r))))
               (map (\<lambda>(r, v). (r, Fin v)) cv)
             = map Fin (map (\<lambda>p. snd p - a * exp (- alpha * fst p) * cos (beta * fst p)) cv)"
    by (simp add: np_sub_def case_prod_unfold)
  have a0: "snd (cv ! 0) = a" by (simp add: cv)
  have "pendiffexpcos [alpha, beta] (map (\<lambda>(r, v). (r, Fin v)) cv)
          = Inr (norm2 (map Fin (map (\<lambda>p. snd p - a * exp (- alpha * fst p) * cos (beta * fst p)) cv)))"
    unfolding res [symmetric] by (simp add: pendiffexpcos_def cv)
  then show ?thesis
    unfolding a0 by (simp only: norm2_map_Fin)
qed

lemma np_add_NaN_right: "np_add x NaN = NaN"
  by (cases x) simp_all

lemma foldl_np_add_NaN: "foldl np_add NaN xs = NaN"
  by (induction xs) simp_all

lemma np_sum_NaN: "NaN \<in> set xs \<Longrightarrow> foldl np_add acc xs = NaN"
proof (induction xs arbitrary: acc)
  case Nil
  then show ?case by simp
next
  case (Cons x xs)
  then show ?case by (auto simp: np_add_NaN_right foldl_np_add_NaN)
qed

lemma norm2_NaN: "NaN \<in> set v \<Longrightarrow> norm2 v = NaN"
proof -
  assume "NaN \<in> set v"
  then have "np_square NaN \<in> np_square ` set v" by (rule imageI)
  then have "NaN \<in> set (map np_square v)" by simp
  then show ?thesis by (simp add: norm2_def np_sum_def np_sum_NaN)
qed

lemma np_sub_NaN: "np_sub NaN y = NaN"
  by (simp add: np_sub_def)

lemma pendiffexp_nan:
  assumes "(r, NaN) \<in> set cvdav"
  shows "pendiffexp (alpha # ps) cvdav = Inr NaN"
proof -
  from assms obtain r0 a rest where cv: "cvdav = (r0, a) # rest" by (cases cvdav) auto
  from assms have "(\<lambda>(r, c). np_sub c (np_scale a (exp (- alpha * r)))) (r, NaN)
        \<in> set (map (\<lambda>(r, c). np_sub c (np_scale a (exp (- alpha * r)))) cvdav)"
    unfolding set_map by (rule imageI)
  then have "NaN \<in> set (map (\<lambda>(r, c). np_sub c (np_scale a (exp (- alpha * r)))) cvdav)"
    by (simp add: np_sub_NaN)
  from norm2_NaN [OF this] show ?thesis
    by (simp add: pendiffexp_def cv)
qed

lemma pendiffexpcos_nan:
  assumes "(r, NaN) \<in> set cvdav"
  shows "pendiffexpcos (alpha # beta # ps) cvdav = Inr NaN"
proof -
  from assms obtain r0 a rest where cv: "cvdav = (r0, a) # rest" by (cases cvdav) auto
  from assms have "(\<lambda>(r, c). np_sub c (np_scale (np_scale a (exp (- alpha * r))) (cos (beta * r)))) (r, NaN)
        \<in> set (map (\<lambda>(r, c). np_sub c (np_scale (np_scale a (exp (- alpha * r))) (cos (beta * r)))) cvdav)"
    unfolding set_map by (rule imageI)
  then have "NaN \<in> set (map (\<lambda>(r, c). np_sub c (np_scale (np_scale a (exp (- alpha * r))) (cos (beta * r)))) cvdav)"
    by (simp add: np_sub_NaN)
  from norm2_NaN [OF this] show ?thesis
    by (simp add: pendiffexpcos_def cv)
qed

lemma np_scale_one: "np_scale a 1 = a"
  by (cases a) simp_all

lemma curves_at_zero:
  "exp_graph ((r0, a) # rest) alpha 0 = Inr a"
  "expcos_graph ((r0, a) # rest) alpha beta 0 = Inr a"
  by (simp_all add: exp_graph_def expcos_graph_def np_scale_one)

lemma penalty_of_empty_profile:
  "pendiffexp params [] = Inl IndexError"
  "pendiffexpcos params [] = Inl IndexError"
  by (simp_all add: pendiffexp_def pendiffexpcos_def)

subsection \<open>The covariance matrix\<close>

text \<open>
  The distance matrix is symmetric with a zero diagonal, and so \<open>E\<close> is symmetric with
  \<open>maxvar\<close> on its diagonal. \<^verbatim>\<open>np.linalg.pinv\<close> is a floating-point routine of numpy
  (a singular value decomposition with a cut-off); it has no counterpart here.
\<close>

lemma rgrid_nth:
  assumes "length x = length y" and "i < length x" and "j < length x"
  shows "rgrid x y ! i ! j = sqrt ((x ! j - x ! i)\<^sup>2 + (y ! j - y ! i)\<^sup>2)"
  using assms by (simp add: rgrid_def grid_map2_def meshgrid1_def meshgrid2_def)

lemma rgrid_symmetric:
  assumes "length x = length y" and "i < length x" and "j < length x"
  shows "rgrid x y ! i ! j = rgrid x y ! j ! i"
  using assms by (simp add: rgrid_nth power2_commute)

lemma rgrid_zero_diagonal:
  assumes "length x = length y" and "i < length x"
  shows "rgrid x y ! i ! i = 0"
  using assms by (simp add: rgrid_nth)

lemma length_rgrid: "length x = length y \<Longrightarrow> shape (length x) (length x) (rgrid x y)"
  by (rule shapeI)
     (auto simp: rgrid_def grid_map2_def meshgrid1_def meshgrid2_def set_zip)

lemma covariance_E_symmetric:
  assumes "length x = length y" and "i < length x" and "j < length x"
  shows "covariance_E maxvar alpha beta x y ! i ! j = covariance_E maxvar alpha beta x y ! j ! i"
proof -
  have s: "shape (length x) (length x) (rgrid x y)" by (rule length_rgrid [OF assms(1)])
  have i: "i < length (rgrid x y)" and j: "j < length (rgrid x y)"
    using s assms by (simp_all add: shape_def)
  have li: "j < length (rgrid x y ! i)" and lj: "i < length (rgrid x y ! j)"
    using shape_nth [OF s] assms by simp_all
  show ?thesis
    using i j li lj rgrid_symmetric [OF assms] by (simp add: covariance_E_def)
qed

lemma covariance_E_diagonal:
  assumes "length x = length y" and "i < length x"
  shows "covariance_E maxvar alpha beta x y ! i ! i = maxvar"
proof -
  have s: "shape (length x) (length x) (rgrid x y)" by (rule length_rgrid [OF assms(1)])
  have i: "i < length (rgrid x y)" using s assms by (simp add: shape_def)
  have li: "i < length (rgrid x y ! i)" using shape_nth [OF s] assms by simp
  show ?thesis
    using i li rgrid_zero_diagonal [OF assms] by (simp add: covariance_E_def)
qed

subsection \<open>The variables after the zero fill\<close>

lemma fill_is_zero_fill:
  "grid_map2 (\<lambda>p q. if isnan q then Some 0 else p) f f = map (map Some) (zero_fill f)"
proof -
  have row: "map2 (\<lambda>p q. if isnan q then Some 0 else p) r r
               = map (Some \<circ> (\<lambda>p. case p of None \<Rightarrow> 0 | Some v \<Rightarrow> v)) r" for r :: "pixel list"
    by (induction r) (auto simp: isnan_def split: option.splits)
  show ?thesis
    unfolding grid_map2_def zero_fill_def
    by (induction f) (simp_all add: row)
qed

lemma zero_fill_stmts_aliases:
  assumes "env st ''flatcropifg'' = Some a" and "heap st a = Some f"
  shows "after_zero_fill st ''flatcropifg'' = Inr (map (map Some) (zero_fill f))"
    and "after_zero_fill st ''flatcropifgzeros'' = Inr (map (map Some) (zero_fill f))"
  using assms
  by (simp_all add: after_zero_fill_def zero_fill_stmts_def bind_name_def set_where_nan_def
      lookup_def fill_is_zero_fill)

text \<open>
  Claim C8 fails on the code. \<^verbatim>\<open>flatcropifgzeros=flatcropifg\<close> binds a second name to the
  same array, and the assignment through the new name writes into it. For a detrended
  field with one missing pixel: before the two statements \<^verbatim>\<open>flatcropifg\<close> holds the
  \<^verbatim>\<open>nan\<close>; after them both names read the zero-filled array, and the \<^verbatim>\<open>nan\<close> marker of
  the detrended field is gone.
\<close>

theorem zero_fill_overwrites_detrended_field:
  "lookup ''flatcropifg''
     \<lparr>env = [''flatcropifg'' \<mapsto> 0], heap = [0 \<mapsto> [[Some 0, None], [Some 0, Some 0]]]\<rparr>
     = Inr [[Some 0, None], [Some 0, Some 0]]
   \<and> after_zero_fill
       \<lparr>env = [''flatcropifg'' \<mapsto> 0], heap = [0 \<mapsto> [[Some 0, None], [Some 0, Some 0]]]\<rparr>
       ''flatcropifg''
     = Inr [[Some 0, Some 0], [Some 0, Some 0]]
   \<and> after_zero_fill
       \<lparr>env = [''flatcropifg'' \<mapsto> 0], heap = [0 \<mapsto> [[Some 0, None], [Some 0, Some 0]]]\<rparr>
       ''flatcropifgzeros''
     = Inr [[Some 0, Some 0], [Some 0, Some 0]]"
  by (simp add: after_zero_fill_def zero_fill_stmts_def bind_name_def set_where_nan_def
      lookup_def grid_map2_def isnan_def)

subsection \<open>The autocorrelation of a field without a nonzero value\<close>

lemma table_const: "map (\<lambda>k. map (\<lambda>l. c) [0..<N]) [0..<M] = replicate M (replicate N c)"
  by (simp add: map_replicate_const)

lemma fft2_zero:
  assumes "\<And>r c. r < nrows z \<Longrightarrow> c < ncols z \<Longrightarrow> z ! r ! c = 0"
  shows "fft2 z = replicate (nrows z) (replicate (ncols z) 0)"
proof -
  have "(\<Sum>r<nrows z. \<Sum>c<ncols z. complex_of_real (z ! r ! c) *
           cis (- (2 * pi * (real k * real r / real (nrows z) + real l * real c / real (ncols z)))))
        = 0" for k l
    by (rule sum.neutral, rule ballI, rule sum.neutral) (simp add: assms)
  then show ?thesis
    unfolding fft2_def Let_def by (simp only: table_const)
qed

lemma ifft2_zero:
  assumes "\<And>k l. k < nrows P \<Longrightarrow> l < ncols P \<Longrightarrow> P ! k ! l = 0"
  shows "ifft2 P = replicate (nrows P) (replicate (ncols P) 0)"
proof -
  have "(\<Sum>k<nrows P. \<Sum>l<ncols P. complex_of_real (P ! k ! l) *
           cis (2 * pi * (real k * real r / real (nrows P) + real l * real c / real (ncols P))))
         / complex_of_real (real (nrows P * ncols P))
        = 0" for r c
  proof -
    have "(\<Sum>k<nrows P. \<Sum>l<ncols P. complex_of_real (P ! k ! l) *
           cis (2 * pi * (real k * real r / real (nrows P) + real l * real c / real (ncols P)))) = 0"
      by (rule sum.neutral, rule ballI, rule sum.neutral) (simp add: assms)
    then show ?thesis by simp
  qed
  then show ?thesis
    unfolding ifft2_def Let_def by (simp only: table_const)
qed

lemma fftshift1_replicate: "fftshift1 (replicate n x) = replicate n x"
proof -
  have "replicate (n - (n + 1) div 2) x @ replicate (min ((n + 1) div 2) n) x = replicate n x"
    unfolding replicate_add [symmetric] by (rule arg_cong [where f = "\<lambda>k. replicate k x"]) simp
  then show ?thesis by (simp add: fftshift1_def Let_def)
qed

lemma fftshift_replicate: "fftshift (replicate M (replicate N x)) = replicate M (replicate N x)"
  by (simp add: fftshift_def fftshift1_replicate)

lemma nrows_replicate: "nrows (replicate M r) = M"
  by (simp add: nrows_def)

lemma ncols_replicate: "0 < M \<Longrightarrow> ncols (replicate M r) = length r"
  by (cases M) (simp_all add: ncols_def)

lemma zero_entries:
  assumes "shape M N z" and "count_nonzero z = 0" and "r < M" and "c < N"
  shows "z ! r ! c = 0"
proof -
  from assms(2) have all: "\<forall>v \<in> set (concat z). v = 0"
    by (simp add: count_nonzero_def ravel_def filter_empty_conv)
  from assms(1,3) have "z ! r \<in> set z" by (simp add: shape_def)
  moreover from assms(1,3,4) have "z ! r ! c \<in> set (z ! r)" by (simp add: shape_nth)
  ultimately have "z ! r ! c \<in> set (concat z)" by auto
  with all show ?thesis by blast
qed

lemma autocorr_grid_of_zero:
  assumes "shape M N f" and "0 < M" and "count_nonzero (zero_fill f) = 0"
  shows "autocorr_grid f = replicate M (replicate N NaN)"
proof -
  let ?z = "zero_fill f"
  have sz: "shape M N ?z" unfolding zero_fill_def by (rule shape_map_map [OF assms(1)])
  have dz: "nrows ?z = M" "ncols ?z = N"
    using shape_nrows [OF sz] shape_ncols [OF sz assms(2)] by simp_all
  have F: "fft2 ?z = replicate M (replicate N 0)"
    using fft2_zero [of ?z] zero_entries [OF sz assms(3)] by (simp add: dz)
  let ?P = "replicate M (replicate N (0::real))"
  have P: "map (map (\<lambda>w. (Re w)\<^sup>2 + (Im w)\<^sup>2)) (fft2 ?z) = ?P"
    by (simp add: F)
  have dP: "nrows ?P = M" "ncols ?P = N"
    using assms(2) by (simp_all add: nrows_replicate ncols_replicate)
  have A: "ifft2 ?P = replicate M (replicate N 0)"
    using ifft2_zero [of ?P] by (simp add: dP)
  show ?thesis
    unfolding autocorr_grid_def Let_def P A
    by (simp add: fftshift_replicate assms(3) np_div_def)
qed

subsection \<open>The shift of \<^verbatim>\<open>fftshift\<close> as an index map\<close>

lemma fftshift1_circshift: "fftshift1 xs = circshift (length xs div 2) xs"
proof (rule nth_equalityI)
  show "length (fftshift1 xs) = length (circshift (length xs div 2) xs)"
    by (simp add: length_fftshift1 circshift_def)
next
  fix j
  assume "j < length (fftshift1 xs)"
  then have j: "j < length xs" by (simp add: length_fftshift1)
  define n where "n = length xs"
  define k where "k = n div 2"
  define p where "p = (n + 1) div 2"
  have jn: "j < n" using j by (simp add: n_def)
  then have n: "0 < n" by simp
  have pk: "p + k = n" unfolding p_def k_def by presburger
  have kn: "k mod n = k" using n by (simp add: k_def)
  have idx: "(j + n - k) mod n = (if j < k then p + j else j - k)"
  proof (cases "j < k")
    case True
    with pk jn have "j + n - k = p + j" "p + j < n" by simp_all
    with True show ?thesis by simp
  next
    case False
    with pk have e: "j + n - k = (j - k) + n" by simp
    from jn have "j - k < n" by simp
    then have "((j - k) + n) mod n = j - k" by simp
    with e False show ?thesis by simp
  qed
  have fs: "fftshift1 xs = drop p xs @ take p xs"
    by (simp add: fftshift1_def Let_def p_def n_def)
  have ld: "length xs - p = k"
    using pk by (simp add: n_def [symmetric])
  have pn: "p \<le> length xs" using pk by (simp add: n_def [symmetric])
  have "fftshift1 xs ! j = (if j < k then xs ! (p + j) else xs ! (j - k))"
  proof (cases "j < k")
    case True
    then show ?thesis unfolding fs by (simp add: nth_append ld pn)
  next
    case False
    with jn pk have "j - k < p" by simp
    with False show ?thesis unfolding fs by (simp add: nth_append ld)
  qed
  moreover have "circshift (length xs div 2) xs ! j = xs ! ((j + n - k) mod n)"
    using jn by (simp add: circshift_def n_def [symmetric] k_def [symmetric] kn)
  ultimately show "fftshift1 xs ! j = circshift (length xs div 2) xs ! j"
    by (simp add: idx)
qed

lemma fftshift_circshift:
  assumes "shape M N g"
  shows "fftshift g = circshift (M div 2) (map (circshift (N div 2)) g)"
proof -
  have m: "map fftshift1 g = map (circshift (N div 2)) g"
    by (rule map_cong [OF refl]) (simp add: fftshift1_circshift shape_rows [OF assms])
  have len: "length (map (circshift (N div 2)) g) = M"
    using assms by (simp add: shape_def)
  show ?thesis
    unfolding fftshift_def m by (simp only: fftshift1_circshift len)
qed

lemma count_nonzero_row:
  "Some 0 \<notin> set row \<Longrightarrow>
   length (filter ((\<lambda>v. v \<noteq> 0) \<circ> case_option 0 (\<lambda>v. v)) row)
     = length (filter (\<lambda>p. \<not> isnan p) row)"
  by (induction row) (auto simp: isnan_def split: option.splits)

lemma count_nonzero_valid:
  "Some 0 \<notin> set (ravel f) \<Longrightarrow> count_nonzero (zero_fill f) = num_valid f"
  unfolding count_nonzero_def num_valid_def ravel_def zero_fill_def
  by (induction f) (simp_all add: count_nonzero_row filter_map)

lemma autocorr_grid_is_spec:
  assumes "rect f" and "Some 0 \<notin> set (ravel f)"
  shows "autocorr_grid f = spec_autocovariance f"
proof -
  let ?z = "zero_fill f"
  let ?P = "map (map (\<lambda>w. (Re w)\<^sup>2 + (Im w)\<^sup>2)) (fft2 ?z)"
  have pw: "?P = map (map (\<lambda>w. (cmod w)\<^sup>2)) (fft2 ?z)"
    by (simp add: cmod_power2)
  have "shape (nrows ?z) (ncols ?z) ?P"
    by (rule shape_map_map) (rule shape_fft2)
  then have dP: "nrows ?P = nrows f" "ncols ?P = ncols f"
    using dims_of_shape [of ?z ?P] by (simp_all add: nrows_zero_fill ncols_zero_fill)
  have "shape (nrows f) (ncols f) (ifft2 ?P)"
    using shape_ifft2 [of ?P] by (simp add: dP)
  then have "shape (nrows f) (ncols f) (map (map Re) (ifft2 ?P))"
    by (rule shape_map_map)
  from fftshift_circshift [OF this] show ?thesis
    unfolding autocorr_grid_def spec_autocovariance_def Let_def pw [symmetric]
    by (simp add: count_nonzero_valid [OF assms(2)])
qed

subsection \<open>Where the zero lag and the zero distance are\<close>

lemma circshift_moves_first:
  assumes "k < length xs"
  shows "circshift k xs ! k = xs ! 0"
proof -
  have "(k + length xs - k mod length xs) mod length xs = 0"
    using assms by simp
  with assms show ?thesis by (simp add: circshift_def)
qed

lemma fftshift_zero_lag:
  assumes "shape M N g" and "0 < M" and "0 < N"
  shows "fftshift g ! (M div 2) ! (N div 2) = g ! 0 ! 0"
proof -
  have lg: "length g = M" using assms(1) by (simp add: shape_def)
  have l0: "length (g ! 0) = N" using shape_nth [OF assms(1,2)] .
  have "fftshift g ! (M div 2) = map (circshift (N div 2)) g ! 0"
    unfolding fftshift_circshift [OF assms(1)]
    by (rule circshift_moves_first) (use assms(2) lg in simp)
  also have "\<dots> = circshift (N div 2) (g ! 0)"
    using assms(2) lg by simp
  finally show ?thesis
    using circshift_moves_first [of "N div 2" "g ! 0"] assms(3) l0 by simp
qed

lemma radial_dist_nth:
  assumes "r < nr" and "c < nc"
  shows "radial_dist nr nc pixsize ! r ! c
           = sqrt ((real c - cent_of nc)\<^sup>2 + (real r - cent_of nr)\<^sup>2) * pixsize"
  using assms
  by (simp add: radial_dist_def Let_def grid_map2_def meshgrid_xx_def meshgrid_yy_def)

lemma cent_of_div: "cent_of n = real (n div 2) + 1"
proof -
  have "\<lfloor>real n / 2\<rfloor> = int (n div 2)"
    by (simp add: floor_divide_of_nat_eq [of n 2, simplified])
  then show ?thesis by (simp add: cent_of_def)
qed

lemma radial_dist_zero_lag:
  assumes "0 < nr" and "0 < nc"
  shows "radial_dist nr nc pixsize ! (nr div 2) ! (nc div 2) = sqrt 2 * pixsize"
proof -
  have "nr div 2 < nr" "nc div 2 < nc" using assms by simp_all
  then show ?thesis
    by (simp add: radial_dist_nth cent_of_div)
qed

lemma radial_dist_zero_iff:
  assumes "r < nr" and "c < nc" and "0 < pixsize"
  shows "radial_dist nr nc pixsize ! r ! c = 0 \<longleftrightarrow> r = nr div 2 + 1 \<and> c = nc div 2 + 1"
proof -
  have "sqrt ((real c - (real (nc div 2) + 1))\<^sup>2 + (real r - (real (nr div 2) + 1))\<^sup>2) = 0
          \<longleftrightarrow> real c = real (nc div 2) + 1 \<and> real r = real (nr div 2) + 1"
    by (simp add: sum_power2_eq_zero_iff)
  also have "\<dots> \<longleftrightarrow> r = nr div 2 + 1 \<and> c = nc div 2 + 1"
  proof -
    have "real c = real (nc div 2) + 1 \<longleftrightarrow> c = nc div 2 + 1"
      using of_nat_eq_iff [of c "nc div 2 + 1", where ?'a = real]
      by (simp only: of_nat_add of_nat_1)
    moreover have "real r = real (nr div 2) + 1 \<longleftrightarrow> r = nr div 2 + 1"
      using of_nat_eq_iff [of r "nr div 2 + 1", where ?'a = real]
      by (simp only: of_nat_add of_nat_1)
    ultimately show ?thesis by blast
  qed
  finally show ?thesis
    using assms by (simp add: radial_dist_nth cent_of_div)
qed

subsection \<open>The transforms of a 2 by 2 field\<close>

lemma lessThan_2: "{..<(2::nat)} = {0, 1}" by auto
lemma upt_0_2: "[0..<2] = [0, 1]" by (simp add: upt_rec)
lemma cis_minus_pi: "cis (- pi) = - 1" by (simp add: complex_eq_iff)

lemma fft2_2_by_2: "fft2 [[0, 1], [- 1, 0]] = [[0, - 2], [2, 0]]"
  by (simp add: fft2_def nrows_def ncols_def Let_def lessThan_2 upt_0_2 cis_minus_pi)

lemma ifft2_2_by_2: "ifft2 [[0, 4], [4, 0]] = [[2, 0], [0, - 2]]"
  by (simp add: ifft2_def nrows_def ncols_def Let_def lessThan_2 upt_0_2)

subsection \<open>The divisor of the autocovariance\<close>

text \<open>
  Claim C1 fails on the code in its last step. The cell divides by
  \<^verbatim>\<open>np.count_nonzero(flatcropifgzeros)\<close>, the number of nonzero entries of the
  zero-filled field, which is the number of valid pixels only when no valid pixel is
  exactly 0 (lemma \<open>autocorr_grid_is_spec\<close> for that case). For the field below, with four
  valid pixels of which two are 0, the code divides by 2 where the claim says 4.
\<close>

theorem autocorr_divides_by_nonzero_count:
  "autocorr_grid [[Some 0, Some 1], [Some (- 1), Some 0]]
     = [[Fin (- 1), Fin 0], [Fin 0, Fin 1]]
   \<and> spec_autocovariance [[Some 0, Some 1], [Some (- 1), Some 0]]
     = [[Fin (- (1 / 2)), Fin 0], [Fin 0, Fin (1 / 2)]]
   \<and> count_nonzero (zero_fill [[Some 0, Some 1], [Some (- 1), Some 0]]) = 2
   \<and> num_valid [[Some 0, Some 1], [Some (- 1), Some 0]] = 4"
proof -
  have z: "zero_fill [[Some 0, Some 1], [Some (- 1), Some 0]] = [[0, 1], [- 1, 0]]"
    by (simp add: zero_fill_def)
  have c: "count_nonzero [[0, 1], [- 1, 0]] = 2"
    by (simp add: count_nonzero_def ravel_def)
  have n: "num_valid [[Some 0, Some 1], [Some (- 1), Some 0]] = 4"
    by (simp add: num_valid_def ravel_def isnan_def)
  have a: "autocorr_grid [[Some 0, Some 1], [Some (- 1), Some 0]]
             = [[Fin (- 1), Fin 0], [Fin 0, Fin 1]]"
    by (simp add: autocorr_grid_def Let_def z c fft2_2_by_2 ifft2_2_by_2
        fftshift_def fftshift1_def np_div_def)
  have s: "spec_autocovariance [[Some 0, Some 1], [Some (- 1), Some 0]]
             = [[Fin (- (1 / 2)), Fin 0], [Fin 0, Fin (1 / 2)]]"
    by (simp add: spec_autocovariance_def Let_def z n fft2_2_by_2 ifft2_2_by_2
        circshift_def nrows_def ncols_def upt_0_2 np_div_def)
  from a s c n show ?thesis by (simp add: z)
qed

end
